theory Spec2Isabelle
  imports Main "HOL-Library.Word"
begin

section \<open>The encrypted-value primitive\<close>

text \<open>
  The contract \<^verbatim>\<open>METHStaking.sol\<close> works on handles of encrypted 64-bit integers.
  The FHE library, \<^verbatim>\<open>FHESafeMath\<close> and the ERC7984 base contract are imported by the
  contract and are not part of the sources; they are modelled here from the specification
  (sections 3, 4.1, 4.3 and 4.4). A handle is a number, \<open>0\<close> being the uninitialised
  handle; the ciphertext store maps each handle to its plaintext, which only the
  homomorphic operations read. Every operation makes a new handle and appends itself to
  the list of operations performed.
\<close>

type_synonym address = nat
type_synonym handle = nat
type_synonym euint64 = handle
type_synonym ebool = handle

datatype fhe_op =
    OpInput
  | OpTrivial "64 word"
  | OpAdd handle handle
  | OpSub handle handle
  | OpGe handle handle
  | OpSelect handle handle handle

record fhe =
  plain :: "handle \<Rightarrow> 64 word"
  count :: nat
  acl :: "(handle \<times> address) set"
  transient :: "(handle \<times> address) set"
  ops :: "fhe_op list"

text \<open>Modelled from the spec: the plaintext behind a handle; an uninitialised handle
  reads as zero (section 3: "default = uninitialized/zero").\<close>

definition decrypt :: "fhe \<Rightarrow> handle \<Rightarrow> 64 word" where
  "decrypt f h = (if h = 0 then 0 else plain f h)"

text \<open>Modelled from the spec: a value produced by an operation is new and starts with no
  grants (section 4.3).\<close>

definition produce :: "fhe_op \<Rightarrow> 64 word \<Rightarrow> fhe \<Rightarrow> handle \<times> fhe" where
  "produce opn v f =
     (count f + 1,
      f\<lparr>plain := (plain f)(count f + 1 := v), count := count f + 1,
        ops := ops f @ [opn]\<rparr>)"

definition isInitialized :: "handle \<Rightarrow> bool" where
  "isInitialized h = (h \<noteq> 0)"

definition asEuint64 :: "64 word \<Rightarrow> fhe \<Rightarrow> euint64 \<times> fhe" where
  "asEuint64 v f = produce (OpTrivial v) v f"

definition FHE_add :: "euint64 \<Rightarrow> euint64 \<Rightarrow> fhe \<Rightarrow> euint64 \<times> fhe" where
  "FHE_add a b f = produce (OpAdd a b) (decrypt f a + decrypt f b) f"

definition FHE_sub :: "euint64 \<Rightarrow> euint64 \<Rightarrow> fhe \<Rightarrow> euint64 \<times> fhe" where
  "FHE_sub a b f = produce (OpSub a b) (decrypt f a - decrypt f b) f"

definition FHE_ge :: "euint64 \<Rightarrow> euint64 \<Rightarrow> fhe \<Rightarrow> ebool \<times> fhe" where
  "FHE_ge a b f = produce (OpGe a b) (if decrypt f b \<le> decrypt f a then 1 else 0) f"

definition FHE_select :: "ebool \<Rightarrow> euint64 \<Rightarrow> euint64 \<Rightarrow> fhe \<Rightarrow> euint64 \<times> fhe" where
  "FHE_select c a b f =
     produce (OpSelect c a b) (if decrypt f c \<noteq> 0 then decrypt f a else decrypt f b) f"

text \<open>Modelled from the spec: the access relation (value, principal) of section 4.3.
  Grants are only added. A handle that names no ciphertext carries no grant.\<close>

definition allow :: "handle \<Rightarrow> address \<Rightarrow> fhe \<Rightarrow> fhe" where
  "allow h a f = f\<lparr>acl := insert (h, a) (acl f)\<rparr>"

definition allowTransient :: "handle \<Rightarrow> address \<Rightarrow> fhe \<Rightarrow> fhe" where
  "allowTransient h a f = f\<lparr>transient := insert (h, a) (transient f)\<rparr>"

definition isAllowed :: "fhe \<Rightarrow> handle \<Rightarrow> address \<Rightarrow> bool" where
  "isAllowed f h a = (h \<noteq> 0 \<and> h \<le> count f \<and> ((h, a) \<in> acl f \<or> (h, a) \<in> transient f))"

text \<open>Modelled from the spec: an external ciphertext with its validity proof
  (section 6, inbound amount submission (a)); the verifier rejects an invalid proof.\<close>

datatype externalEuint64 = ExternalInput "64 word" bool

datatype error =
    InvalidTokenAddress
  | UnauthorizedEncryptedAmount address
  | InvalidInputProof
  | CustodyRejected

definition fromExternal :: "externalEuint64 \<Rightarrow> fhe \<Rightarrow> error + (euint64 \<times> fhe)" where
  "fromExternal x f =
     (case x of ExternalInput v proofOk \<Rightarrow>
        if proofOk then Inr (produce OpInput v f) else Inl InvalidInputProof)"

subsection \<open>Safe arithmetic\<close>

text \<open>Modelled from the spec: \<^verbatim>\<open>FHESafeMath.tryIncrease\<close> (section 4.1,
  \<open>trySafeIncrease\<close>): the sum, the encrypted flag "no unsigned-64 overflow occurred",
  and a homomorphic select between the sum and the unchanged current value.\<close>

definition tryIncrease :: "euint64 \<Rightarrow> euint64 \<Rightarrow> fhe \<Rightarrow> (ebool \<times> euint64) \<times> fhe" where
  "tryIncrease oldValue delta f =
     (let (newValue, f1) = FHE_add oldValue delta f;
          (success, f2) = FHE_ge newValue oldValue f1;
          (updated, f3) = FHE_select success newValue oldValue f2
      in ((success, updated), f3))"

text \<open>Modelled from the spec: \<^verbatim>\<open>FHESafeMath.tryDecrease\<close> (section 4.1,
  \<open>trySafeDecrease\<close>): the flag "delta \<le> current", and a homomorphic select between the
  difference and the unchanged current value.\<close>

definition tryDecrease :: "euint64 \<Rightarrow> euint64 \<Rightarrow> fhe \<Rightarrow> (ebool \<times> euint64) \<times> fhe" where
  "tryDecrease oldValue delta f =
     (let (success, f1) = FHE_ge oldValue delta f;
          (diff, f2) = FHE_sub oldValue delta f1;
          (updated, f3) = FHE_select success diff oldValue f2
      in ((success, updated), f3))"

section \<open>The custody collaborator\<close>

text \<open>
  The contract calls \<^verbatim>\<open>methToken.confidentialTransferFrom\<close> and
  \<^verbatim>\<open>methToken.confidentialTransfer\<close> on whatever contract stands at the token
  address. The collaborator is a parameter of the model: it sees the ciphertext store and
  its own state \<open>'c\<close>, never the ledger's storage, and may revert. The first argument of
  both functions is the calling contract.
\<close>

record 'c collaborator =
  confidentialTransferFrom ::
    "address \<Rightarrow> address \<Rightarrow> address \<Rightarrow> euint64 \<Rightarrow> fhe \<times> 'c \<Rightarrow> error + (euint64 \<times> fhe \<times> 'c)"
  confidentialTransfer ::
    "address \<Rightarrow> address \<Rightarrow> euint64 \<Rightarrow> fhe \<times> 'c \<Rightarrow> error + (euint64 \<times> fhe \<times> 'c)"
  confidentialBalanceOf :: "'c \<Rightarrow> address \<Rightarrow> euint64"

section \<open>METHStaking\<close>

datatype event =
    Staked address euint64 euint64
  | Unstaked address euint64 euint64

record ledger =
  thisAddress :: address
  methToken :: address
  stakedBalances :: "address \<Rightarrow> euint64"
  totalStaked :: euint64
  events :: "event list"

type_synonym 'c world = "fhe \<times> 'c \<times> ledger"

definition allowThis :: "ledger \<Rightarrow> handle \<Rightarrow> fhe \<Rightarrow> fhe" where
  "allowThis l h f = allow h (thisAddress l) f"

text \<open>The constructor; \<open>self\<close> is the address the contract is deployed at.\<close>

definition constructor :: "address \<Rightarrow> address \<Rightarrow> error + ledger" where
  "constructor self tokenAddress =
     (if tokenAddress = 0 then Inl InvalidTokenAddress
      else Inr \<lparr>thisAddress = self, methToken = tokenAddress,
                stakedBalances = (\<lambda>_. 0), totalStaked = 0, events = []\<rparr>)"

definition token :: "ledger \<Rightarrow> address" where
  "token l = methToken l"

definition stakedBalanceOf :: "ledger \<Rightarrow> address \<Rightarrow> euint64" where
  "stakedBalanceOf l account = stakedBalances l account"

definition confidentialTotalStaked :: "ledger \<Rightarrow> euint64" where
  "confidentialTotalStaked l = totalStaked l"

definition increaseTotal :: "euint64 \<Rightarrow> address \<Rightarrow> fhe \<times> ledger \<Rightarrow> fhe \<times> ledger" where
  "increaseTotal amount actor = (\<lambda>(f, l).
     let ((success, updatedTotal), f1) = tryIncrease (totalStaked l) amount f;
         f2 = allowThis l updatedTotal f1;
         f3 = (if actor \<noteq> 0 then allow updatedTotal actor f2 else f2)
     in (f3, l\<lparr>totalStaked := updatedTotal\<rparr>))"

definition decreaseTotal :: "euint64 \<Rightarrow> address \<Rightarrow> fhe \<times> ledger \<Rightarrow> fhe \<times> ledger" where
  "decreaseTotal amount actor = (\<lambda>(f, l).
     let ((success, updatedTotal), f1) = tryDecrease (totalStaked l) amount f;
         f2 = allowThis l updatedTotal f1;
         f3 = (if actor \<noteq> 0 then allow updatedTotal actor f2 else f2)
     in (f3, l\<lparr>totalStaked := updatedTotal\<rparr>))"

definition applyIncrease :: "address \<Rightarrow> euint64 \<Rightarrow> fhe \<times> ledger \<Rightarrow> euint64 \<times> fhe \<times> ledger" where
  "applyIncrease staker amount = (\<lambda>(f, l).
     if \<not> isInitialized amount then (amount, f, l)
     else
       let currentStake = stakedBalances l staker;
           ((success, updatedStake), f1) = tryIncrease currentStake amount f;
           f2 = allowThis l updatedStake f1;
           f3 = allow updatedStake staker f2;
           l1 = l\<lparr>stakedBalances := (stakedBalances l)(staker := updatedStake)\<rparr>;
           (f4, l2) = increaseTotal amount staker (f3, l1);
           l3 = l2\<lparr>events := events l2 @ [Staked staker amount updatedStake]\<rparr>
       in (amount, f4, l3))"

definition internal_stake ::
  "'c collaborator \<Rightarrow> address \<Rightarrow> euint64 \<Rightarrow> 'c world \<Rightarrow> error + (euint64 \<times> 'c world)" where
  "internal_stake tok staker amount = (\<lambda>(f, c, l).
     let f1 = (if isInitialized amount then allowTransient amount (methToken l) f else f)
     in case confidentialTransferFrom tok (thisAddress l) staker (thisAddress l) amount (f1, c) of
          Inl e \<Rightarrow> Inl e
        | Inr (transferred, f2, c2) \<Rightarrow>
            (case applyIncrease staker transferred (f2, l) of
               (r, f3, l3) \<Rightarrow> Inr (r, f3, c2, l3)))"

definition internal_unstake ::
  "'c collaborator \<Rightarrow> address \<Rightarrow> euint64 \<Rightarrow> 'c world \<Rightarrow> error + (euint64 \<times> 'c world)" where
  "internal_unstake tok staker amount = (\<lambda>(f, c, l).
     let currentStake = stakedBalances l staker;
         ((canDecrease, updatedStake), f1) = tryDecrease currentStake amount f;
         (zero, f2) = asEuint64 0 f1;
         (appliedAmount, f3) = FHE_select canDecrease amount zero f2;
         f4 = allowThis l updatedStake f3;
         f5 = allow updatedStake staker f4;
         l1 = l\<lparr>stakedBalances := (stakedBalances l)(staker := updatedStake)\<rparr>;
         (f6, l2) = decreaseTotal appliedAmount staker (f5, l1);
         f7 = (if isInitialized appliedAmount
               then allowTransient appliedAmount (methToken l2) f6 else f6)
     in case confidentialTransfer tok (thisAddress l2) staker appliedAmount (f7, c) of
          Inl e \<Rightarrow> Inl e
        | Inr (transferred, f8, c8) \<Rightarrow>
            Inr (transferred, f8, c8,
                 l2\<lparr>events := events l2 @ [Unstaked staker transferred updatedStake]\<rparr>))"

text \<open>The four entry points; \<open>sender\<close> is \<^verbatim>\<open>msg.sender\<close>.\<close>

definition stake_external ::
  "'c collaborator \<Rightarrow> address \<Rightarrow> externalEuint64 \<Rightarrow> 'c world \<Rightarrow> error + (euint64 \<times> 'c world)" where
  "stake_external tok sender encryptedAmount = (\<lambda>(f, c, l).
     case fromExternal encryptedAmount f of
       Inl e \<Rightarrow> Inl e
     | Inr (amount, f1) \<Rightarrow> internal_stake tok sender amount (f1, c, l))"

definition stake ::
  "'c collaborator \<Rightarrow> address \<Rightarrow> euint64 \<Rightarrow> 'c world \<Rightarrow> error + (euint64 \<times> 'c world)" where
  "stake tok sender amount = (\<lambda>(f, c, l).
     if \<not> isAllowed f amount sender then Inl (UnauthorizedEncryptedAmount sender)
     else internal_stake tok sender amount (f, c, l))"

definition unstake_external ::
  "'c collaborator \<Rightarrow> address \<Rightarrow> externalEuint64 \<Rightarrow> 'c world \<Rightarrow> error + (euint64 \<times> 'c world)" where
  "unstake_external tok sender encryptedAmount = (\<lambda>(f, c, l).
     case fromExternal encryptedAmount f of
       Inl e \<Rightarrow> Inl e
     | Inr (amount, f1) \<Rightarrow> internal_unstake tok sender amount (f1, c, l))"

definition unstake ::
  "'c collaborator \<Rightarrow> address \<Rightarrow> euint64 \<Rightarrow> 'c world \<Rightarrow> error + (euint64 \<times> 'c world)" where
  "unstake tok sender amount = (\<lambda>(f, c, l).
     if \<not> isAllowed f amount sender then Inl (UnauthorizedEncryptedAmount sender)
     else internal_unstake tok sender amount (f, c, l))"

text \<open>A transaction: a reverted call leaves the world as it was.\<close>

datatype call =
    Stake address euint64
  | StakeExternal address externalEuint64
  | Unstake address euint64
  | UnstakeExternal address externalEuint64

fun exec :: "'c collaborator \<Rightarrow> call \<Rightarrow> 'c world \<Rightarrow> error + (euint64 \<times> 'c world)" where
  "exec tok (Stake s h) w = stake tok s h w"
| "exec tok (StakeExternal s x) w = stake_external tok s x w"
| "exec tok (Unstake s h) w = unstake tok s h w"
| "exec tok (UnstakeExternal s x) w = unstake_external tok s x w"

definition step :: "'c collaborator \<Rightarrow> call \<Rightarrow> 'c world \<Rightarrow> 'c world" where
  "step tok c w = (case exec tok c w of Inl e \<Rightarrow> w | Inr (r, w') \<Rightarrow> w')"

fun states :: "'c collaborator \<Rightarrow> 'c world \<Rightarrow> call list \<Rightarrow> 'c world list" where
  "states tok w [] = [w]"
| "states tok w (c # cs) = w # states tok (step tok c w) cs"

fun sender_of :: "call \<Rightarrow> address" where
  "sender_of (Stake s h) = s"
| "sender_of (StakeExternal s x) = s"
| "sender_of (Unstake s h) = s"
| "sender_of (UnstakeExternal s x) = s"

section \<open>Reference custody collaborators\<close>

text \<open>Modelled from the spec: the custody collaborator of section 4.4 (the ERC7984 base
  contract of \<^verbatim>\<open>ERC7984ETH.sol\<close> is not part of the sources). It demands that the
  gateway has authorised it on the amount, enforces sender balance sufficiency with the
  safe decrease (an insufficient sender moves zero), and grants the parties the values it
  produces.\<close>

record custody =
  custodyAddress :: address
  balances :: "address \<Rightarrow> euint64"

definition custody_update ::
  "address \<Rightarrow> address \<Rightarrow> euint64 \<Rightarrow> fhe \<times> custody \<Rightarrow> euint64 \<times> fhe \<times> custody" where
  "custody_update src dst amount = (\<lambda>(f, c).
     let ((success, ptr), f1) = tryDecrease (balances c src) amount f;
         f2 = allow ptr src (allow ptr (custodyAddress c) f1);
         b1 = (balances c)(src := ptr);
         (zero, f3) = asEuint64 0 f2;
         (transferred, f4) = FHE_select success amount zero f3;
         (ptr2, f5) = FHE_add (b1 dst) transferred f4;
         f6 = allow ptr2 dst (allow ptr2 (custodyAddress c) f5);
         b2 = b1(dst := ptr2);
         f7 = allow transferred dst (allow transferred src
                (allow transferred (custodyAddress c) f6))
     in (transferred, f7, c\<lparr>balances := b2\<rparr>))"

definition custodian :: "custody collaborator" where
  "custodian =
     \<lparr>confidentialTransferFrom = (\<lambda>caller src dst amount (f, c).
        if \<not> isAllowed f amount (custodyAddress c) then Inl CustodyRejected
        else case custody_update src dst amount (f, c) of
               (transferred, f1, c1) \<Rightarrow> Inr (transferred, allowTransient transferred caller f1, c1)),
      confidentialTransfer = (\<lambda>caller dst amount (f, c).
        if \<not> isAllowed f amount (custodyAddress c) then Inl CustodyRejected
        else Inr (custody_update caller dst amount (f, c))),
      confidentialBalanceOf = balances\<rparr>"

text \<open>Modelled from the spec: a custody collaborator that moves every amount it is asked
  for in full and hands the same handle back (section 6, custody collaborator
  interface); it keeps no state.\<close>

definition obliging :: "unit collaborator" where
  "obliging =
     \<lparr>confidentialTransferFrom = (\<lambda>caller src dst amount (f, c). Inr (amount, f, c)),
      confidentialTransfer = (\<lambda>caller dst amount (f, c). Inr (amount, f, c)),
      confidentialBalanceOf = (\<lambda>c a. 0)\<rparr>"

section \<open>Assumptions on a collaborator and observations of a world\<close>

text \<open>Ciphertexts are immutable and grants are never revoked: a later store extends an
  earlier one.\<close>

definition extends :: "fhe \<Rightarrow> fhe \<Rightarrow> bool" where
  "extends f f' =
     (count f \<le> count f' \<and> (\<forall>h. h \<le> count f \<longrightarrow> decrypt f' h = decrypt f h) \<and>
      acl f \<subseteq> acl f')"

definition wellBehaved :: "'c collaborator \<Rightarrow> bool" where
  "wellBehaved tok =
     ((\<forall>caller s d a f c h f' c'.
         a \<le> count f \<longrightarrow> confidentialTransferFrom tok caller s d a (f, c) = Inr (h, f', c')
           \<longrightarrow> extends f f' \<and> h \<le> count f') \<and>
      (\<forall>caller d a f c h f' c'.
         a \<le> count f \<longrightarrow> confidentialTransfer tok caller d a (f, c) = Inr (h, f', c')
           \<longrightarrow> extends f f' \<and> h \<le> count f'))"

definition balanceValue :: "'c world \<Rightarrow> address \<Rightarrow> nat" where
  "balanceValue w a = (case w of (f, c, l) \<Rightarrow> unat (decrypt f (stakedBalanceOf l a)))"

definition totalValue :: "'c world \<Rightarrow> nat" where
  "totalValue w = (case w of (f, c, l) \<Rightarrow> unat (decrypt f (confidentialTotalStaked l)))"

definition sumStaked :: "address set \<Rightarrow> 'c world \<Rightarrow> nat" where
  "sumStaked A w = (\<Sum>a\<in>A. balanceValue w a)"

definition freshWorld :: "fhe \<Rightarrow> 'c \<Rightarrow> address \<Rightarrow> address \<Rightarrow> error + 'c world" where
  "freshWorld f c self tokenAddress =
     (case constructor self tokenAddress of Inl e \<Rightarrow> Inl e | Inr l \<Rightarrow> Inr (f, c, l))"

section \<open>Auxiliary definitions\<close>

text \<open>The plaintext effect of the safe increase and of the safe decrease.\<close>

definition incr :: "64 word \<Rightarrow> 64 word \<Rightarrow> 64 word" where
  "incr x d = (if unat x + unat d < 2 ^ 64 then x + d else x)"

definition decr :: "64 word \<Rightarrow> 64 word \<Rightarrow> 64 word" where
  "decr x d = (if d \<le> x then x - d else x)"

text \<open>The part of \<^verbatim>\<open>_unstake\<close> before the call of the collaborator (lines 73 to 85):
  the applied amount, the store and the ledger handed on.\<close>

definition unstake_core ::
  "address \<Rightarrow> euint64 \<Rightarrow> fhe \<times> ledger \<Rightarrow> euint64 \<times> fhe \<times> ledger" where
  "unstake_core staker amount = (\<lambda>(f, l).
     let currentStake = stakedBalances l staker;
         ((canDecrease, updatedStake), f1) = tryDecrease currentStake amount f;
         (zero, f2) = asEuint64 0 f1;
         (appliedAmount, f3) = FHE_select canDecrease amount zero f2;
         f4 = allowThis l updatedStake f3;
         f5 = allow updatedStake staker f4;
         l1 = l\<lparr>stakedBalances := (stakedBalances l)(staker := updatedStake)\<rparr>;
         (f6, l2) = decreaseTotal appliedAmount staker (f5, l1);
         f7 = (if isInitialized appliedAmount
               then allowTransient appliedAmount (methToken l2) f6 else f6)
     in (appliedAmount, f7, l2))"

text \<open>Example data: an empty ciphertext store and the ledger the constructor makes.\<close>

definition emptyFhe :: fhe where
  "emptyFhe = \<lparr>plain = (\<lambda>h. 0), count = 0, acl = {}, transient = {}, ops = []\<rparr>"

definition ledgerAt :: "address \<Rightarrow> address \<Rightarrow> ledger" where
  "ledgerAt self tokenAddress =
     \<lparr>thisAddress = self, methToken = tokenAddress, stakedBalances = (\<lambda>a. 0),
      totalStaked = 0, events = []\<rparr>"

text \<open>The invariant behind conservation, for a set \<open>A\<close> of accounts that contains every
  account that ever staked: accounts outside \<open>A\<close> have no balance, every stored handle
  names a ciphertext, and the total decrypts to the sum of the balances.\<close>

definition conserved :: "address set \<Rightarrow> 'c world \<Rightarrow> bool" where
  "conserved A w = (case w of (f, c, l) \<Rightarrow>
     (\<forall>a. a \<notin> A \<longrightarrow> stakedBalances l a = 0) \<and> (\<forall>a. stakedBalances l a \<le> count f) \<and>
     totalStaked l \<le> count f \<and> totalValue w = sumStaked A w)"

text \<open>Example data: a store and a ledger in which account 3 holds the largest balance,
  which is also the total.\<close>

definition fullFhe :: fhe where
  "fullFhe = \<lparr>plain = (\<lambda>h. 0)(1 := 18446744073709551615, 2 := 18446744073709551615, 3 := 1),
              count = 3, acl = {}, transient = {}, ops = []\<rparr>"

definition fullLedger :: ledger where
  "fullLedger = (ledgerAt 9 7)\<lparr>stakedBalances := (\<lambda>a. 0)(3 := 1), totalStaked := 2\<rparr>"

text \<open>The decrypted custody balance of an account, and the assumption on a collaborator
  that moving an encrypted zero moves nothing.\<close>

definition custodyValue :: "'c collaborator \<Rightarrow> 'c world \<Rightarrow> address \<Rightarrow> nat" where
  "custodyValue tok w a = (case w of (f, c, l) \<Rightarrow> unat (decrypt f (confidentialBalanceOf tok c a)))"

definition zeroNeutral :: "'c collaborator \<Rightarrow> bool" where
  "zeroNeutral tok =
     (\<forall>caller d a f c h f' c'.
        a \<le> count f \<longrightarrow> decrypt f a = 0 \<longrightarrow> (\<forall>y. confidentialBalanceOf tok c y \<le> count f) \<longrightarrow>
        confidentialTransfer tok caller d a (f, c) = Inr (h, f', c') \<longrightarrow>
        decrypt f' h = 0 \<and>
        (\<forall>x. decrypt f' (confidentialBalanceOf tok c' x) = decrypt f (confidentialBalanceOf tok c x)))"

text \<open>Example data: a sender whose custody balance (100) is below the amount it asks to
  stake (500); a ledger in which account 4 has staked 300 and holds 700 in custody, with a
  request of 600; and the same ledger with a custodian that holds only 100 for it, with a
  request of 200.\<close>

definition poorFhe :: fhe where
  "poorFhe = \<lparr>plain = (\<lambda>h. 0)(2 := 100, 3 := 500), count = 3, acl = {}, transient = {},
              ops = []\<rparr>"

definition poorCustody :: custody where
  "poorCustody = \<lparr>custodyAddress = 7, balances = (\<lambda>a. 0)(4 := 2)\<rparr>"

definition stakedFhe :: fhe where
  "stakedFhe = \<lparr>plain = (\<lambda>h. 0)(2 := 300, 3 := 300, 4 := 700, 5 := 300, 6 := 600),
                count = 6, acl = {(6, 4)}, transient = {}, ops = []\<rparr>"

definition stakedLedger :: ledger where
  "stakedLedger = (ledgerAt 9 7)\<lparr>stakedBalances := (\<lambda>a. 0)(4 := 2), totalStaked := 3\<rparr>"

definition stakedCustody :: custody where
  "stakedCustody = \<lparr>custodyAddress = 7, balances = (\<lambda>a. 0)(4 := 4, 9 := 5)\<rparr>"

definition shortFhe :: fhe where
  "shortFhe = \<lparr>plain = (\<lambda>h. 0)(2 := 300, 3 := 300, 4 := 700, 5 := 100, 6 := 200),
               count = 6, acl = {(6, 4)}, transient = {}, ops = []\<rparr>"

text \<open>The amount field of an event.\<close>

fun eventAmount :: "event \<Rightarrow> euint64" where
  "eventAmount (Staked s a b) = a"
| "eventAmount (Unstaked s a b) = a"

text \<open>Two stores have the same shape when they differ in plaintexts only: the same
  handles exist, with the same grants, after the same homomorphic operations on the same
  operands. Two results are the same to an observer when they agree on everything but the
  plaintexts. A collaborator is blind when its reply depends on the shape of the store
  only.\<close>

definition sameShape :: "fhe \<Rightarrow> fhe \<Rightarrow> bool" where
  "sameShape f g =
     (count f = count g \<and> acl f = acl g \<and> transient f = transient g \<and> ops f = ops g)"

definition sameReply ::
  "error + (euint64 \<times> fhe \<times> 'c) \<Rightarrow> error + (euint64 \<times> fhe \<times> 'c) \<Rightarrow> bool" where
  "sameReply x y =
     (case x of
        Inl e \<Rightarrow> (case y of Inl e' \<Rightarrow> e = e' | Inr v \<Rightarrow> False)
      | Inr (h, f, c) \<Rightarrow>
          (case y of Inl e' \<Rightarrow> False
           | Inr (h', g, c') \<Rightarrow> h = h' \<and> sameShape f g \<and> c = c'))"

definition sameOutcome ::
  "error + (euint64 \<times> 'c world) \<Rightarrow> error + (euint64 \<times> 'c world) \<Rightarrow> bool" where
  "sameOutcome x y =
     (case x of
        Inl e \<Rightarrow> (case y of Inl e' \<Rightarrow> e = e' | Inr v \<Rightarrow> False)
      | Inr (r, f, c, l) \<Rightarrow>
          (case y of Inl e' \<Rightarrow> False
           | Inr (r', g, c', l') \<Rightarrow> r = r' \<and> sameShape f g \<and> c = c' \<and> l = l'))"

definition sameStep :: "euint64 \<times> fhe \<times> ledger \<Rightarrow> euint64 \<times> fhe \<times> ledger \<Rightarrow> bool" where
  "sameStep x y =
     (case x of (r, f, l) \<Rightarrow> (case y of (r', g, l') \<Rightarrow> r = r' \<and> sameShape f g \<and> l = l'))"

definition blind :: "'c collaborator \<Rightarrow> bool" where
  "blind tok =
     ((\<forall>caller s d a f g c. sameShape f g \<longrightarrow>
         sameReply (confidentialTransferFrom tok caller s d a (f, c))
                   (confidentialTransferFrom tok caller s d a (g, c))) \<and>
      (\<forall>caller d a f g c. sameShape f g \<longrightarrow>
         sameReply (confidentialTransfer tok caller d a (f, c))
                   (confidentialTransfer tok caller d a (g, c))))"

section \<open>Lemmas on the primitive and on the internal functions\<close>

declare stakedBalanceOf_def [simp] confidentialTotalStaked_def [simp]

lemma word_ge_add: "((x::64 word) \<le> x + d) = (unat x + unat d < 2 ^ 64)"
  using no_olen_add_nat [of x d] by simp

lemma produce_simps:
  "fst (produce opn v f) = count f + 1"
  "count (snd (produce opn v f)) = count f + 1"
  "acl (snd (produce opn v f)) = acl f"
  "transient (snd (produce opn v f)) = transient f"
  "ops (snd (produce opn v f)) = ops f @ [opn]"
  "decrypt (snd (produce opn v f)) h = (if h = count f + 1 then v else decrypt f h)"
  by (simp_all add: produce_def decrypt_def)

lemma allow_simps:
  "count (allow h a f) = count f"
  "acl (allow h a f) = insert (h, a) (acl f)" "transient (allow h a f) = transient f"
  "ops (allow h a f) = ops f" "decrypt (allow h a f) x = decrypt f x"
  "count (allowTransient h a f) = count f"
  "acl (allowTransient h a f) = acl f"
  "transient (allowTransient h a f) = insert (h, a) (transient f)"
  "ops (allowTransient h a f) = ops f" "decrypt (allowTransient h a f) x = decrypt f x"
  by (simp_all add: allow_def allowTransient_def decrypt_def)

lemmas op_defs = FHE_add_def FHE_sub_def FHE_ge_def FHE_select_def asEuint64_def
  tryIncrease_def tryDecrease_def Let_def split_def

lemma tryIncrease_E:
  assumes "tryIncrease a b f = ((ok, u), f')"
  shows "u = count f + 3" "count f' = count f + 3" "acl f' = acl f"
    "transient f' = transient f"
    "h \<le> count f \<Longrightarrow> decrypt f' h = decrypt f h"
    "a \<le> count f \<Longrightarrow> b \<le> count f \<Longrightarrow> decrypt f' (count f + 3) = incr (decrypt f a) (decrypt f b)"
  using assms [symmetric]
  by (simp_all add: op_defs produce_simps incr_def word_ge_add)

lemma tryDecrease_E:
  assumes "tryDecrease a b f = ((ok, u), f')"
  shows "ok = count f + 1" "u = count f + 3" "count f' = count f + 3" "acl f' = acl f"
    "transient f' = transient f"
    "h \<le> count f \<Longrightarrow> decrypt f' h = decrypt f h"
    "a \<le> count f \<Longrightarrow> b \<le> count f \<Longrightarrow> decrypt f' (count f + 3) = decr (decrypt f a) (decrypt f b)"
    "a \<le> count f \<Longrightarrow> b \<le> count f \<Longrightarrow>
       decrypt f' (count f + 1) = (if decrypt f b \<le> decrypt f a then 1 else 0)"
  using assms [symmetric]
  by (simp_all add: op_defs produce_simps decr_def)

lemma increaseTotal_E:
  assumes "increaseTotal amt actor (f, l) = (f', l')"
  shows "l' = l\<lparr>totalStaked := count f + 3\<rparr>" "count f' = count f + 3"
    "transient f' = transient f"
    "acl f' = (if actor \<noteq> 0 then {(count f + 3, actor)} else {}) \<union>
              {(count f + 3, thisAddress l)} \<union> acl f"
    "h \<le> count f \<Longrightarrow> decrypt f' h = decrypt f h"
    "totalStaked l \<le> count f \<Longrightarrow> amt \<le> count f \<Longrightarrow>
       decrypt f' (count f + 3) = incr (decrypt f (totalStaked l)) (decrypt f amt)"
  using assms [symmetric]
  by (auto simp add: increaseTotal_def allowThis_def allow_simps Let_def
        dest: tryIncrease_E split: prod.splits)

lemma decreaseTotal_E:
  assumes "decreaseTotal amt actor (f, l) = (f', l')"
  shows "l' = l\<lparr>totalStaked := count f + 3\<rparr>" "count f' = count f + 3"
    "transient f' = transient f"
    "acl f' = (if actor \<noteq> 0 then {(count f + 3, actor)} else {}) \<union>
              {(count f + 3, thisAddress l)} \<union> acl f"
    "h \<le> count f \<Longrightarrow> decrypt f' h = decrypt f h"
    "totalStaked l \<le> count f \<Longrightarrow> amt \<le> count f \<Longrightarrow>
       decrypt f' (count f + 3) = decr (decrypt f (totalStaked l)) (decrypt f amt)"
  using assms [symmetric]
  by (auto simp add: decreaseTotal_def allowThis_def allow_simps Let_def
        dest: tryDecrease_E split: prod.splits)

lemma applyIncrease_uninit: "applyIncrease s 0 (f, l) = (0, f, l)"
  by (simp add: applyIncrease_def isInitialized_def)

lemma applyIncrease_E:
  assumes "applyIncrease s amt (f, l) = (r, F, L)" and "amt \<noteq> 0"
  shows "r = amt"
    "L = l\<lparr>stakedBalances := (stakedBalances l)(s := count f + 3), totalStaked := count f + 6,
            events := events l @ [Staked s amt (count f + 3)]\<rparr>"
    "count F = count f + 6"
    "transient F = transient f"
    "acl F = (if s \<noteq> 0 then {(count f + 6, s)} else {}) \<union>
             {(count f + 6, thisAddress l), (count f + 3, s), (count f + 3, thisAddress l)} \<union> acl f"
    "h \<le> count f \<Longrightarrow> decrypt F h = decrypt f h"
    "amt \<le> count f \<Longrightarrow> stakedBalances l s \<le> count f \<Longrightarrow>
       decrypt F (count f + 3) = incr (decrypt f (stakedBalances l s)) (decrypt f amt)"
    "amt \<le> count f \<Longrightarrow> totalStaked l \<le> count f \<Longrightarrow>
       decrypt F (count f + 6) = incr (decrypt f (totalStaked l)) (decrypt f amt)"
proof -
  obtain ok u f1 where t: "tryIncrease (stakedBalances l s) amt f = ((ok, u), f1)"
    by (metis surj_pair)
  define f3 where "f3 = allow u s (allowThis l u f1)"
  define l1 where "l1 = l\<lparr>stakedBalances := (stakedBalances l)(s := u)\<rparr>"
  obtain f4 l2 where i: "increaseTotal amt s (f3, l1) = (f4, l2)"
    by (metis surj_pair)
  have res: "r = amt" "F = f4" "L = l2\<lparr>events := events l2 @ [Staked s amt u]\<rparr>"
    using assms t i by (auto simp add: applyIncrease_def isInitialized_def f3_def l1_def)
  note T = tryIncrease_E [OF t]
  note I = increaseTotal_E [OF i]
  have c3: "count f3 = count f + 3"
    by (simp add: f3_def allowThis_def allow_simps T)
  show "r = amt" by (rule res)
  show "L = l\<lparr>stakedBalances := (stakedBalances l)(s := count f + 3), totalStaked := count f + 6,
            events := events l @ [Staked s amt (count f + 3)]\<rparr>"
    by (simp add: res I l1_def T c3)
  show "count F = count f + 6" by (simp add: res I c3)
  show "transient F = transient f" by (simp add: res I f3_def allowThis_def allow_simps T)
  show "acl F = (if s \<noteq> 0 then {(count f + 6, s)} else {}) \<union>
             {(count f + 6, thisAddress l), (count f + 3, s), (count f + 3, thisAddress l)} \<union> acl f"
    by (auto simp add: res I c3 l1_def f3_def allowThis_def allow_simps T)
  have d3: "decrypt f3 x = decrypt f1 x" for x
    by (simp add: f3_def allowThis_def allow_simps)
  show "decrypt F h = decrypt f h" if "h \<le> count f"
    using that by (simp add: res I(5) c3 d3 T(5))
  show "decrypt F (count f + 3) = incr (decrypt f (stakedBalances l s)) (decrypt f amt)"
    if "amt \<le> count f" "stakedBalances l s \<le> count f"
    using that by (simp add: res I(5) c3 d3 T(6))
  show "decrypt F (count f + 6) = incr (decrypt f (totalStaked l)) (decrypt f amt)"
    if "amt \<le> count f" "totalStaked l \<le> count f"
  proof -
    have "decrypt f4 (count f3 + 3) = incr (decrypt f3 (totalStaked l1)) (decrypt f3 amt)"
      using that by (intro I(6)) (simp_all add: l1_def c3)
    then show ?thesis
      using that by (simp add: res c3 d3 l1_def T(5) add.commute)
  qed
qed

lemma unstake_core_E:
  assumes "unstake_core s amt (f, l) = (a, F, L)"
  shows "a = count f + 5"
    "L = l\<lparr>stakedBalances := (stakedBalances l)(s := count f + 3), totalStaked := count f + 8\<rparr>"
    "count F = count f + 8"
    "transient F = insert (count f + 5, methToken l) (transient f)"
    "acl F = (if s \<noteq> 0 then {(count f + 8, s)} else {}) \<union>
             {(count f + 8, thisAddress l), (count f + 3, s), (count f + 3, thisAddress l)} \<union> acl f"
    "h \<le> count f \<Longrightarrow> decrypt F h = decrypt f h"
    "amt \<le> count f \<Longrightarrow> stakedBalances l s \<le> count f \<Longrightarrow>
       decrypt F (count f + 3) = decr (decrypt f (stakedBalances l s)) (decrypt f amt)"
    "amt \<le> count f \<Longrightarrow> stakedBalances l s \<le> count f \<Longrightarrow>
       decrypt F (count f + 5) =
         (if decrypt f amt \<le> decrypt f (stakedBalances l s) then decrypt f amt else 0)"
    "amt \<le> count f \<Longrightarrow> stakedBalances l s \<le> count f \<Longrightarrow> totalStaked l \<le> count f \<Longrightarrow>
       decrypt F (count f + 8) =
         decr (decrypt f (totalStaked l))
           (if decrypt f amt \<le> decrypt f (stakedBalances l s) then decrypt f amt else 0)"
proof -
  obtain ok u f1 where t: "tryDecrease (stakedBalances l s) amt f = ((ok, u), f1)"
    by (metis surj_pair)
  define f2 where "f2 = snd (asEuint64 0 f1)"
  define f3 where "f3 = snd (FHE_select ok amt (count f + 4) f2)"
  define f5 where "f5 = allow u s (allowThis l u f3)"
  define l1 where "l1 = l\<lparr>stakedBalances := (stakedBalances l)(s := u)\<rparr>"
  obtain f6 l2 where d: "decreaseTotal (count f + 5) s (f5, l1) = (f6, l2)"
    by (metis surj_pair)
  note T = tryDecrease_E [OF t]
  note D = decreaseTotal_E [OF d]
  have c2: "fst (asEuint64 0 f1) = count f + 4" "count f2 = count f + 4"
    by (simp_all add: f2_def asEuint64_def produce_simps T)
  have c3: "fst (FHE_select ok amt (count f + 4) f2) = count f + 5" "count f3 = count f + 5"
    by (simp_all add: f3_def FHE_select_def produce_simps c2)
  have c5: "count f5 = count f + 5"
    by (simp add: f5_def allowThis_def allow_simps c3)
  have res: "a = count f + 5" "F = allowTransient (count f + 5) (methToken l2) f6" "L = l2"
    using assms t d c2 c3
    by (auto simp add: unstake_core_def isInitialized_def Let_def f2_def f3_def f5_def l1_def
          split: prod.splits)
  have d5: "decrypt f5 x = decrypt f3 x" for x
    by (simp add: f5_def allowThis_def allow_simps)
  have d3: "decrypt f3 x = (if x = count f + 5
              then (if decrypt f2 ok \<noteq> 0 then decrypt f2 amt else decrypt f2 (count f + 4))
              else decrypt f2 x)" for x
    by (simp add: f3_def FHE_select_def produce_simps c2 add.commute)
  have d2: "decrypt f2 x = (if x = count f + 4 then 0 else decrypt f1 x)" for x
    by (simp add: f2_def asEuint64_def produce_simps T add.commute)
  show "a = count f + 5" by (rule res)
  show "L = l\<lparr>stakedBalances := (stakedBalances l)(s := count f + 3), totalStaked := count f + 8\<rparr>"
    by (simp add: res D l1_def T c5)
  show "count F = count f + 8" by (simp add: res D c5 allow_simps)
  show "transient F = insert (count f + 5, methToken l) (transient f)"
    by (simp add: res D l1_def allow_simps f5_def allowThis_def f3_def f2_def FHE_select_def
          asEuint64_def produce_simps T)
  show "acl F = (if s \<noteq> 0 then {(count f + 8, s)} else {}) \<union>
             {(count f + 8, thisAddress l), (count f + 3, s), (count f + 3, thisAddress l)} \<union> acl f"
    by (auto simp add: res D c5 l1_def allow_simps f5_def allowThis_def f3_def f2_def
          FHE_select_def asEuint64_def produce_simps T)
  show "decrypt F h = decrypt f h" if "h \<le> count f"
    using that by (simp add: res allow_simps D(5) c5 d5 d3 d2 T(6))
  show "decrypt F (count f + 3) = decr (decrypt f (stakedBalances l s)) (decrypt f amt)"
    if "amt \<le> count f" "stakedBalances l s \<le> count f"
    using that by (simp add: res allow_simps D(5) c5 d5 d3 d2 T(7))
  have applied: "decrypt f5 (count f + 5) =
         (if decrypt f amt \<le> decrypt f (stakedBalances l s) then decrypt f amt else 0)"
    if "amt \<le> count f" "stakedBalances l s \<le> count f"
    using that T(8) by (simp add: d5 d3 d2 T(6) T(1))
  show "decrypt F (count f + 5) =
         (if decrypt f amt \<le> decrypt f (stakedBalances l s) then decrypt f amt else 0)"
    if "amt \<le> count f" "stakedBalances l s \<le> count f"
    using that applied by (simp add: res allow_simps D(5) c5)
  show "decrypt F (count f + 8) =
         decr (decrypt f (totalStaked l))
           (if decrypt f amt \<le> decrypt f (stakedBalances l s) then decrypt f amt else 0)"
    if "amt \<le> count f" "stakedBalances l s \<le> count f" "totalStaked l \<le> count f"
  proof -
    have "decrypt f6 (count f5 + 3) =
            decr (decrypt f5 (totalStaked l1)) (decrypt f5 (count f + 5))"
      using that by (intro D(6)) (simp_all add: l1_def c5)
    moreover have "decrypt f5 (totalStaked l1) = decrypt f (totalStaked l)"
      using that by (simp add: l1_def d5 d3 d2 T(6))
    ultimately show ?thesis
      using that applied by (simp add: res allow_simps c5 add.commute)
  qed
qed

lemma internal_unstake_eq:
  "internal_unstake tok s amt (f, c, l) =
     (case unstake_core s amt (f, l) of (a, F, L) \<Rightarrow>
        (case confidentialTransfer tok (thisAddress L) s a (F, c) of
           Inl e \<Rightarrow> Inl e
         | Inr (t, f8, c8) \<Rightarrow>
             Inr (t, f8, c8, L\<lparr>events := events L @ [Unstaked s t (stakedBalances L s)]\<rparr>)))"
proof -
  have dl: "stakedBalances L = stakedBalances m"
    if "decreaseTotal a s (g, m) = (F, L)" for a g m F L
    using decreaseTotal_E(1) [OF that] by simp
  show ?thesis
    by (auto simp add: internal_unstake_def unstake_core_def Let_def
          dest: dl split: prod.splits sum.splits)
qed

lemma internal_stake_E:
  assumes "internal_stake tok s amt (f, c, l) = Inr (r, F, C, L)"
  obtains t f2 where
    "confidentialTransferFrom tok (thisAddress l) s (thisAddress l) amt
       (if isInitialized amt then allowTransient amt (methToken l) f else f, c) = Inr (t, f2, C)"
    "applyIncrease s t (f2, l) = (r, F, L)"
  using assms
  by (auto simp add: internal_stake_def Let_def split: sum.splits prod.splits)

lemma internal_unstake_E:
  assumes "internal_unstake tok s amt (f, c, l) = Inr (r, F, C, L)"
  obtains a f7 l2 where
    "unstake_core s amt (f, l) = (a, f7, l2)"
    "confidentialTransfer tok (thisAddress l2) s a (f7, c) = Inr (r, F, C)"
    "L = l2\<lparr>events := events l2 @ [Unstaked s r (stakedBalances l2 s)]\<rparr>"
  using assms
  by (auto simp add: internal_unstake_eq split: sum.splits prod.splits)

lemma applyIncrease_addresses:
  assumes "applyIncrease s t (f, l) = (r, F, L)"
  shows "methToken L = methToken l \<and> thisAddress L = thisAddress l"
proof (cases "t = 0")
  case True
  with assms show ?thesis by (simp add: applyIncrease_uninit)
next
  case False
  from applyIncrease_E(2) [OF assms False] show ?thesis by simp
qed

lemma exec_addresses:
  assumes "exec tok k (f, c, l) = Inr (r, F, C, L)"
  shows "methToken L = methToken l \<and> thisAddress L = thisAddress l"
proof -
  have st: "methToken L = methToken l \<and> thisAddress L = thisAddress l"
    if "internal_stake tok s amt (g, c, l) = Inr (r, F, C, L)" for s amt g
    using that by (elim internal_stake_E) (rule applyIncrease_addresses)
  have un: "methToken L = methToken l \<and> thisAddress L = thisAddress l"
    if "internal_unstake tok s amt (g, c, l) = Inr (r, F, C, L)" for s amt g
  proof -
    from that obtain a f7 l2 where u: "unstake_core s amt (g, l) = (a, f7, l2)"
      and L: "L = l2\<lparr>events := events l2 @ [Unstaked s r (stakedBalances l2 s)]\<rparr>"
      by (elim internal_unstake_E)
    from unstake_core_E(2) [OF u] L show ?thesis by simp
  qed
  show ?thesis
    using assms
    by (cases k)
      (auto simp add: stake_def stake_external_def unstake_def unstake_external_def
         split: if_splits sum.splits prod.splits dest: st un)
qed

lemma step_addresses:
  "methToken (snd (snd (step tok k w))) = methToken (snd (snd w)) \<and>
   thisAddress (snd (snd (step tok k w))) = thisAddress (snd (snd w))"
proof (cases w)
  case (fields f c l)
  show ?thesis
  proof (cases "exec tok k (f, c, l)")
    case (Inl e)
    then show ?thesis by (simp add: step_def fields)
  next
    case (Inr x)
    then obtain r F C L where "exec tok k (f, c, l) = Inr (r, F, C, L)"
      by (cases x) auto
    then show ?thesis using exec_addresses [of tok k f c l r F C L]
      by (simp add: step_def fields)
  qed
qed

lemma states_addresses:
  "w' \<in> set (states tok w ks) \<Longrightarrow>
   methToken (snd (snd w')) = methToken (snd (snd w)) \<and>
   thisAddress (snd (snd w')) = thisAddress (snd (snd w))"
proof (induction ks arbitrary: w)
  case Nil
  then show ?case by simp
next
  case (Cons k ks)
  show ?case
  proof (cases "w' = w")
    case True
    then show ?thesis by simp
  next
    case False
    with Cons.prems have "w' \<in> set (states tok (step tok k w) ks)" by simp
    from Cons.IH [OF this] step_addresses [of tok k w] show ?thesis by simp
  qed
qed

section \<open>The constructor\<close>

text \<open>Claim C9. Constructing the ledger with the zero token address reverts with
  \<open>InvalidTokenAddress\<close> and yields no ledger; with any other address it succeeds, the
  token is that address, balances and total start uninitialised, and the token stays
  that address in every state that any sequence of calls reaches.\<close>

theorem constructor_fixes_token:
  "constructor self 0 = Inl InvalidTokenAddress \<and>
   (tokenAddress \<noteq> 0 \<longrightarrow>
      (\<exists>l. constructor self tokenAddress = Inr l \<and> token l = tokenAddress \<and>
           stakedBalances l = (\<lambda>a. 0) \<and> totalStaked l = 0 \<and>
           (\<forall>w' \<in> set (states tok (f, c, l) ks). token (snd (snd w')) = tokenAddress)))"
  using states_addresses [of _ tok "(f, c, _)" ks]
  by (auto simp add: constructor_def token_def)

theorem constructor_fixes_token_witness:
  "constructor 9 0 = Inl InvalidTokenAddress \<and> (7::nat) \<noteq> 0 \<and>
   constructor 9 7 = Inr (ledgerAt 9 7) \<and>
   token (snd (snd (step obliging (StakeExternal 2 (ExternalInput 400000 True))
                      (emptyFhe, (), ledgerAt 9 7)))) = 7"
proof -
  let ?k = "StakeExternal 2 (ExternalInput 400000 True)"
  have c: "constructor 9 7 = Inr (ledgerAt 9 7)"
    by (simp add: constructor_def ledgerAt_def)
  have m: "step obliging ?k (emptyFhe, (), ledgerAt 9 7)
             \<in> set (states obliging (emptyFhe, (), ledgerAt 9 7) [?k])"
    by simp
  have n: "(7::nat) \<noteq> 0" by simp
  from constructor_fixes_token [of 9 7 obliging emptyFhe "()" "[?k]"] n
  obtain l0 where z: "constructor 9 0 = Inl InvalidTokenAddress"
    and l0: "constructor 9 7 = Inr l0"
    and b: "\<forall>w' \<in> set (states obliging (emptyFhe, (), l0) [?k]). token (snd (snd w')) = 7"
    by blast
  from l0 c have "l0 = ledgerAt 9 7" by simp
  with b m have "token (snd (snd (step obliging ?k (emptyFhe, (), ledgerAt 9 7)))) = 7"
    by blast
  with z c show ?thesis by simp
qed

section \<open>The authorisation gate\<close>

text \<open>Claim C3. When the caller holds no grant on the handle it presents, the
  handle-accepting overloads of stake and unstake revert with
  \<open>UnauthorizedEncryptedAmount\<close> of the caller, and the transaction leaves the store,
  the collaborator and the ledger as they were.\<close>

theorem unauthorized_handle_rejected:
  assumes "\<not> isAllowed f amount sender"
  shows "stake tok sender amount (f, c, l) = Inl (UnauthorizedEncryptedAmount sender) \<and>
         unstake tok sender amount (f, c, l) = Inl (UnauthorizedEncryptedAmount sender) \<and>
         step tok (Stake sender amount) (f, c, l) = (f, c, l) \<and>
         step tok (Unstake sender amount) (f, c, l) = (f, c, l)"
  using assms by (simp add: stake_def unstake_def step_def)

theorem unauthorized_handle_rejected_witness:
  "\<not> isAllowed (snd (produce OpInput 5 emptyFhe)) 1 2 \<and>
   stake obliging 2 1 (snd (produce OpInput 5 emptyFhe), (), ledgerAt 9 7) =
     Inl (UnauthorizedEncryptedAmount 2) \<and>
   unstake obliging 2 1 (snd (produce OpInput 5 emptyFhe), (), ledgerAt 9 7) =
     Inl (UnauthorizedEncryptedAmount 2) \<and>
   step obliging (Stake 2 1) (snd (produce OpInput 5 emptyFhe), (), ledgerAt 9 7) =
     (snd (produce OpInput 5 emptyFhe), (), ledgerAt 9 7) \<and>
   step obliging (Unstake 2 1) (snd (produce OpInput 5 emptyFhe), (), ledgerAt 9 7) =
     (snd (produce OpInput 5 emptyFhe), (), ledgerAt 9 7)"
proof -
  have h: "\<not> isAllowed (snd (produce OpInput 5 emptyFhe)) 1 2"
    by (simp add: isAllowed_def produce_def emptyFhe_def)
  from unauthorized_handle_rejected [OF h, of obliging "()" "ledgerAt 9 7"] h
  show ?thesis by simp
qed

section \<open>The early exit of stake\<close>

text \<open>Claim C10. When the collaborator hands back an uninitialised value, stake returns
  it and leaves the ledger as it was: no balance, no total, no event. Unstake has no such
  exit: whenever it returns, it has appended one \<open>Unstaked\<close> event and stored for the
  account the handle that the safe decrease produced.\<close>

theorem stake_skips_uninitialized_unstake_always_stores:
  "(confidentialTransferFrom tok (thisAddress l) s (thisAddress l) amt
      (if isInitialized amt then allowTransient amt (methToken l) f else f, c) = Inr (t, f2, c2)
    \<longrightarrow> \<not> isInitialized t
    \<longrightarrow> internal_stake tok s amt (f, c, l) = Inr (t, f2, c2, l)) \<and>
   (internal_unstake tok s amt (f, c, l) = Inr (r, F, C, L)
    \<longrightarrow> events L = events l @ [Unstaked s r (stakedBalances L s)] \<and>
        stakedBalances L s = snd (fst (tryDecrease (stakedBalances l s) amt f)))"
proof (intro conjI impI)
  assume "confidentialTransferFrom tok (thisAddress l) s (thisAddress l) amt
      (if isInitialized amt then allowTransient amt (methToken l) f else f, c) = Inr (t, f2, c2)"
    and "\<not> isInitialized t"
  then show "internal_stake tok s amt (f, c, l) = Inr (t, f2, c2, l)"
    by (simp add: internal_stake_def Let_def applyIncrease_def)
next
  assume a: "internal_unstake tok s amt (f, c, l) = Inr (r, F, C, L)"
  then obtain a f7 l2 where u: "unstake_core s amt (f, l) = (a, f7, l2)"
    and L: "L = l2\<lparr>events := events l2 @ [Unstaked s r (stakedBalances l2 s)]\<rparr>"
    by (elim internal_unstake_E)
  obtain ok v f1 where t: "tryDecrease (stakedBalances l s) amt f = ((ok, v), f1)"
    by (metis surj_pair)
  from unstake_core_E(2) [OF u] L tryDecrease_E(2) [OF t]
  show "events L = events l @ [Unstaked s r (stakedBalances L s)]"
    and "stakedBalances L s = snd (fst (tryDecrease (stakedBalances l s) amt f))"
    by (simp_all add: t)
qed

theorem stake_skips_uninitialized_unstake_always_stores_witness:
  "confidentialTransferFrom obliging 9 2 9 0 (emptyFhe, ()) = Inr (0, emptyFhe, ()) \<and>
   \<not> isInitialized 0 \<and>
   internal_stake obliging 2 0 (emptyFhe, (), ledgerAt 9 7) = Inr (0, emptyFhe, (), ledgerAt 9 7) \<and>
   (\<exists>F L. internal_unstake obliging 2 0 (emptyFhe, (), ledgerAt 9 7) = Inr (5, F, (), L) \<and>
      events L = [Unstaked 2 5 3] \<and> stakedBalances L 2 = 3 \<and>
      snd (fst (tryDecrease 0 0 emptyFhe)) = 3)"
proof -
  have t: "confidentialTransferFrom obliging 9 2 9 0 (emptyFhe, ()) = Inr (0, emptyFhe, ())"
    by (simp add: obliging_def)
  obtain a f7 l2 where u: "unstake_core 2 0 (emptyFhe, ledgerAt 9 7) = (a, f7, l2)"
    by (metis surj_pair)
  have c0: "count emptyFhe = 0" by (simp add: emptyFhe_def)
  note U = unstake_core_E(1,2) [OF u]
  have r: "internal_unstake obliging 2 0 (emptyFhe, (), ledgerAt 9 7) =
             Inr (5, f7, (), l2\<lparr>events := events l2 @ [Unstaked 2 5 (stakedBalances l2 2)]\<rparr>)"
    using U(1) by (simp add: internal_unstake_eq u obliging_def c0)
  from stake_skips_uninitialized_unstake_always_stores
         [of obliging "ledgerAt 9 7" 2 0 emptyFhe "()" 0 emptyFhe "()" 5 f7 "()"
             "l2\<lparr>events := events l2 @ [Unstaked 2 5 (stakedBalances l2 2)]\<rparr>"]
       t r U(2)
  show ?thesis
    by (simp add: isInitialized_def ledgerAt_def c0)
qed

section \<open>Conservation\<close>

lemma unat_incr:
  "unat (incr x d) = (if unat x + unat d < 2 ^ 64 then unat x + unat d else unat x)"
proof (cases "unat x + unat d < 2 ^ 64")
  case True
  then have "unat (x + d) = unat x + unat d"
    using unat_add_lem [of x d] by simp
  with True show ?thesis by (simp add: incr_def)
next
  case False
  then show ?thesis by (simp add: incr_def)
qed

lemma unat_decr:
  "unat (decr x d) = (if unat d \<le> unat x then unat x - unat d else unat x)"
  by (simp add: decr_def word_le_nat_alt unat_sub)

lemma incr_conserve:
  assumes "unat T = S" "unat b \<le> S" "S' + unat b = S + unat (incr b d)" "S' < 2 ^ 64"
  shows "unat (incr T d) = S'"
  using assms by (auto simp add: unat_incr split: if_splits)

lemma decr_conserve:
  assumes "unat T = S" "unat b \<le> S" "S' + unat b = S + unat (decr b x)"
  shows "unat (decr T (if x \<le> b then x else 0)) = S'"
  using assms by (auto simp add: unat_decr word_le_nat_alt split: if_splits)

lemma sum_change_one:
  fixes g g' :: "nat \<Rightarrow> nat"
  assumes "finite A" "s \<in> A" "\<And>a. a \<in> A \<Longrightarrow> a \<noteq> s \<Longrightarrow> g' a = g a"
  shows "sum g' A + g s = sum g A + g' s" and "g s \<le> sum g A"
proof -
  have "sum g' (A - {s}) = sum g (A - {s})"
    by (rule sum.cong) (use assms(3) in auto)
  then show "sum g' A + g s = sum g A + g' s"
    using sum.remove [OF assms(1,2), of g] sum.remove [OF assms(1,2), of g'] by simp
  show "g s \<le> sum g A"
    using sum.remove [OF assms(1,2), of g] by simp
qed

lemma decrypt_extends: "extends f f' \<Longrightarrow> h \<le> count f \<Longrightarrow> decrypt f' h = decrypt f h"
  by (simp add: extends_def)

lemma conserved_extends:
  assumes "conserved A (f, c, l)" "extends f f'"
  shows "conserved A (f', c', l)"
proof -
  have "count f \<le> count f'" using assms(2) by (simp add: extends_def)
  moreover have "decrypt f' h = decrypt f h" if "h \<le> count f" for h
    using assms(2) that by (rule decrypt_extends)
  ultimately show ?thesis
    using assms(1)
    by (auto simp add: conserved_def totalValue_def sumStaked_def balanceValue_def
          intro: le_trans)
qed

lemma applyIncrease_conserved:
  assumes inv: "conserved A (f, c, l)" and fin: "finite A" and s: "s \<in> A"
    and t: "t \<le> count f"
    and app: "applyIncrease s t (f, l) = (r, F, L)"
    and rng: "sumStaked A (F, c', L) < 2 ^ 64"
  shows "conserved A (F, c', L)"
proof (cases "t = 0")
  case True
  with app have "F = f" "L = l" by (simp_all add: applyIncrease_uninit)
  with inv show ?thesis
    by (simp add: conserved_def totalValue_def sumStaked_def balanceValue_def)
next
  case False
  note E = applyIncrease_E [OF app False]
  from inv have out: "\<And>a. a \<notin> A \<Longrightarrow> stakedBalances l a = 0"
    and ex: "\<And>a. stakedBalances l a \<le> count f" and tex: "totalStaked l \<le> count f"
    and eq: "unat (decrypt f (totalStaked l)) = (\<Sum>a\<in>A. unat (decrypt f (stakedBalances l a)))"
    by (simp_all add: conserved_def totalValue_def sumStaked_def balanceValue_def)
  let ?g = "\<lambda>a. unat (decrypt f (stakedBalances l a))"
  let ?g' = "\<lambda>a. unat (decrypt F (stakedBalances L a))"
  have new: "decrypt F (stakedBalances L s) = incr (decrypt f (stakedBalances l s)) (decrypt f t)"
    using E(7) [OF t ex] by (simp add: E(2))
  have old: "?g' a = ?g a" if "a \<noteq> s" for a
    using that E(6) [OF ex [of a]] by (simp add: E(2))
  have tot: "decrypt F (totalStaked L) = incr (decrypt f (totalStaked l)) (decrypt f t)"
    using E(8) [OF t tex] by (simp add: E(2))
  have ch: "sum ?g' A + ?g s = sum ?g A + ?g' s" and le: "?g s \<le> sum ?g A"
    using sum_change_one [OF fin s, of ?g' ?g] old by auto
  have rng': "sum ?g' A < 2 ^ 64"
    using rng by (simp add: sumStaked_def balanceValue_def)
  have "unat (incr (decrypt f (totalStaked l)) (decrypt f t)) = sum ?g' A"
    by (rule incr_conserve [OF eq le _ rng']) (use ch new in simp)
  then have "unat (decrypt F (totalStaked L)) = sum ?g' A"
    by (simp add: tot)
  moreover have "stakedBalances L a = 0" if "a \<notin> A" for a
    using that s out by (auto simp add: E(2))
  moreover have "stakedBalances L a \<le> count F" for a
    using ex [of a] by (simp add: E(2) E(3))
  moreover have "totalStaked L \<le> count F"
    by (simp add: E(2) E(3))
  ultimately show ?thesis
    by (simp add: conserved_def totalValue_def sumStaked_def balanceValue_def)
qed

lemma unstake_core_conserved:
  assumes inv: "conserved A (f, c, l)" and fin: "finite A" and s: "s \<in> A"
    and t: "amt \<le> count f"
    and core: "unstake_core s amt (f, l) = (a, F, L)"
  shows "conserved A (F, c', L)"
proof -
  note E = unstake_core_E [OF core]
  from inv have out: "\<And>a. a \<notin> A \<Longrightarrow> stakedBalances l a = 0"
    and ex: "\<And>a. stakedBalances l a \<le> count f" and tex: "totalStaked l \<le> count f"
    and eq: "unat (decrypt f (totalStaked l)) = (\<Sum>a\<in>A. unat (decrypt f (stakedBalances l a)))"
    by (simp_all add: conserved_def totalValue_def sumStaked_def balanceValue_def)
  let ?g = "\<lambda>a. unat (decrypt f (stakedBalances l a))"
  let ?g' = "\<lambda>a. unat (decrypt F (stakedBalances L a))"
  have new: "decrypt F (stakedBalances L s) = decr (decrypt f (stakedBalances l s)) (decrypt f amt)"
    using E(7) [OF t ex] by (simp add: E(2))
  have old: "?g' a = ?g a" if "a \<noteq> s" for a
    using that E(6) [OF ex [of a]] by (simp add: E(2))
  have tot: "decrypt F (totalStaked L) =
      decr (decrypt f (totalStaked l))
        (if decrypt f amt \<le> decrypt f (stakedBalances l s) then decrypt f amt else 0)"
    using E(9) [OF t ex tex] by (simp add: E(2))
  have ch: "sum ?g' A + ?g s = sum ?g A + ?g' s" and le: "?g s \<le> sum ?g A"
    using sum_change_one [OF fin s, of ?g' ?g] old by auto
  have "unat (decr (decrypt f (totalStaked l))
        (if decrypt f amt \<le> decrypt f (stakedBalances l s) then decrypt f amt else 0)) = sum ?g' A"
    by (rule decr_conserve [OF eq le]) (use ch new in simp)
  then have "unat (decrypt F (totalStaked L)) = sum ?g' A"
    by (simp add: tot)
  moreover have "stakedBalances L a = 0" if "a \<notin> A" for a
    using that s out by (auto simp add: E(2))
  moreover have "stakedBalances L a \<le> count F" for a
    using ex [of a] by (simp add: E(2) E(3))
  moreover have "totalStaked L \<le> count F"
    by (simp add: E(2) E(3))
  ultimately show ?thesis
    by (simp add: conserved_def totalValue_def sumStaked_def balanceValue_def)
qed

lemma conserved_events:
  "conserved A (f, c, l\<lparr>events := es\<rparr>) = conserved A (f, c, l)"
  by (simp add: conserved_def totalValue_def sumStaked_def balanceValue_def)

lemma wellBehaved_from:
  assumes "wellBehaved tok" "a \<le> count f"
    "confidentialTransferFrom tok caller s d a (f, c) = Inr (h, f', c')"
  shows "extends f f'" "h \<le> count f'"
  using assms unfolding wellBehaved_def by blast+

lemma wellBehaved_to:
  assumes "wellBehaved tok" "a \<le> count f"
    "confidentialTransfer tok caller d a (f, c) = Inr (h, f', c')"
  shows "extends f f'" "h \<le> count f'"
  using assms unfolding wellBehaved_def by blast+

lemma extends_allowTransient: "extends f (allowTransient h a f)"
  by (simp add: extends_def allow_simps)

lemma extends_refl: "extends f f"
  by (simp add: extends_def)

lemma internal_stake_conserved:
  assumes wb: "wellBehaved tok" and inv: "conserved A (f, c, l)" and fin: "finite A"
    and s: "s \<in> A" and amt: "amt \<le> count f"
    and run: "internal_stake tok s amt (f, c, l) = Inr (r, F, C, L)"
    and rng: "sumStaked A (F, C, L) < 2 ^ 64"
  shows "conserved A (F, C, L)"
proof -
  let ?f1 = "if isInitialized amt then allowTransient amt (methToken l) f else f"
  from run obtain t f2 where
    tr: "confidentialTransferFrom tok (thisAddress l) s (thisAddress l) amt (?f1, c) = Inr (t, f2, C)"
    and app: "applyIncrease s t (f2, l) = (r, F, L)"
    by (elim internal_stake_E)
  have e1: "extends f ?f1" and c1: "count ?f1 = count f"
    by (simp_all add: extends_allowTransient extends_refl allow_simps)
  from amt c1 have "amt \<le> count ?f1" by simp
  from wellBehaved_from [OF wb this tr] have e2: "extends ?f1 f2" and t: "t \<le> count f2" .
  have "conserved A (f2, C, l)"
    using conserved_extends [OF conserved_extends [OF inv e1] e2] .
  from applyIncrease_conserved [OF this fin s t app rng] show ?thesis .
qed

lemma internal_unstake_conserved:
  assumes wb: "wellBehaved tok" and inv: "conserved A (f, c, l)" and fin: "finite A"
    and s: "s \<in> A" and amt: "amt \<le> count f"
    and run: "internal_unstake tok s amt (f, c, l) = Inr (r, F, C, L)"
  shows "conserved A (F, C, L)"
proof -
  from run obtain a f7 l2 where core: "unstake_core s amt (f, l) = (a, f7, l2)"
    and tr: "confidentialTransfer tok (thisAddress l2) s a (f7, c) = Inr (r, F, C)"
    and L: "L = l2\<lparr>events := events l2 @ [Unstaked s r (stakedBalances l2 s)]\<rparr>"
    by (elim internal_unstake_E)
  have "a \<le> count f7"
    by (simp add: unstake_core_E(1,3) [OF core])
  from wellBehaved_to [OF wb this tr] have e: "extends f7 F" by simp
  have "conserved A (f7, c, l2)"
    by (rule unstake_core_conserved [OF inv fin s amt core])
  from conserved_extends [OF this e] show ?thesis
    by (simp add: L conserved_events)
qed

lemma fromExternal_E:
  assumes "fromExternal x f = Inr (h, f')"
  shows "h = count f + 1" "count f' = count f + 1" "extends f f'"
  using assms
  by (auto simp add: fromExternal_def produce_def extends_def decrypt_def
        split: externalEuint64.splits if_splits)

lemma exec_conserved:
  assumes wb: "wellBehaved tok" and inv: "conserved A (f, c, l)" and fin: "finite A"
    and s: "sender_of k \<in> A"
    and run: "exec tok k (f, c, l) = Inr (r, F, C, L)"
    and rng: "sumStaked A (F, C, L) < 2 ^ 64"
  shows "conserved A (F, C, L)"
proof (cases k)
  case (Stake s h)
  with run have "h \<le> count f" and "internal_stake tok s h (f, c, l) = Inr (r, F, C, L)"
    by (auto simp add: stake_def isAllowed_def split: if_splits)
  with internal_stake_conserved [OF wb inv fin _ _ _ rng] s Stake show ?thesis by simp
next
  case (StakeExternal s x)
  with run obtain h f1 where x: "fromExternal x f = Inr (h, f1)"
    and st: "internal_stake tok s h (f1, c, l) = Inr (r, F, C, L)"
    by (auto simp add: stake_external_def split: sum.splits)
  note X = fromExternal_E [OF x]
  have "conserved A (f1, c, l)" by (rule conserved_extends [OF inv X(3)])
  from internal_stake_conserved [OF wb this fin _ _ st rng] s StakeExternal X(1,2)
  show ?thesis by simp
next
  case (Unstake s h)
  with run have "h \<le> count f" and "internal_unstake tok s h (f, c, l) = Inr (r, F, C, L)"
    by (auto simp add: unstake_def isAllowed_def split: if_splits)
  with internal_unstake_conserved [OF wb inv fin] s Unstake show ?thesis by simp
next
  case (UnstakeExternal s x)
  with run obtain h f1 where x: "fromExternal x f = Inr (h, f1)"
    and st: "internal_unstake tok s h (f1, c, l) = Inr (r, F, C, L)"
    by (auto simp add: unstake_external_def split: sum.splits)
  note X = fromExternal_E [OF x]
  have "conserved A (f1, c, l)" by (rule conserved_extends [OF inv X(3)])
  from internal_unstake_conserved [OF wb this fin _ _ st] s UnstakeExternal X(1,2)
  show ?thesis by simp
qed

lemma step_conserved:
  assumes wb: "wellBehaved tok" and inv: "conserved A w" and fin: "finite A"
    and s: "sender_of k \<in> A" and rng: "sumStaked A (step tok k w) < 2 ^ 64"
  shows "conserved A (step tok k w)"
proof (cases w)
  case (fields f c l)
  show ?thesis
  proof (cases "exec tok k (f, c, l)")
    case (Inl e)
    with inv show ?thesis by (simp add: step_def fields)
  next
    case (Inr x)
    then obtain r F C L where run: "exec tok k (f, c, l) = Inr (r, F, C, L)"
      by (cases x) auto
    then have st: "step tok k w = (F, C, L)" by (simp add: step_def fields)
    from inv have i: "conserved A (f, c, l)" by (simp add: fields)
    from rng have "sumStaked A (F, C, L) < 2 ^ 64" by (simp add: st)
    from exec_conserved [OF wb i fin s run this] show ?thesis
      by (simp add: st)
  qed
qed

lemma states_conserved:
  assumes "wellBehaved tok" "finite A"
  shows "conserved A w \<Longrightarrow> sender_of ` set ks \<subseteq> A \<Longrightarrow>
         (\<forall>w' \<in> set (states tok w ks). sumStaked A w' < 2 ^ 64) \<Longrightarrow>
         w' \<in> set (states tok w ks) \<Longrightarrow> conserved A w'"
proof (induction ks arbitrary: w)
  case Nil
  then show ?case by simp
next
  case (Cons k ks)
  show ?case
  proof (cases "w' = w")
    case True
    with Cons.prems(1) show ?thesis by simp
  next
    case False
    with Cons.prems(4) have m: "w' \<in> set (states tok (step tok k w) ks)" by simp
    have "step tok k w \<in> set (states tok (step tok k w) ks)" by (cases ks) simp_all
    with Cons.prems(3) have "sumStaked A (step tok k w) < 2 ^ 64" by simp
    with step_conserved [OF assms(1) Cons.prems(1) assms(2)] Cons.prems(2)
    have "conserved A (step tok k w)" by simp
    from Cons.IH [OF this _ _ m] Cons.prems(2,3) show ?thesis by simp
  qed
qed

lemma fresh_conserved:
  assumes "freshWorld f c self tokenAddress = Inr w"
  shows "conserved A w"
  using assms
  by (auto simp add: freshWorld_def constructor_def conserved_def totalValue_def
        sumStaked_def balanceValue_def decrypt_def split: if_splits)

subsection \<open>Symbolic execution with the obliging collaborator\<close>

lemma obliging_wellBehaved: "wellBehaved obliging"
  by (simp add: wellBehaved_def obliging_def extends_refl)

lemma obliging_stake_external:
  assumes "stakedBalances l s \<le> count f" "totalStaked l \<le> count f"
  shows "\<exists>F.
    step obliging (StakeExternal s (ExternalInput v True)) (f, (), l) =
       (F, (), l\<lparr>stakedBalances := (stakedBalances l)(s := count f + 4),
                  totalStaked := count f + 7,
                  events := events l @ [Staked s (count f + 1) (count f + 4)]\<rparr>) \<and>
    count F = count f + 7 \<and>
    (\<forall>h. h \<le> count f \<longrightarrow> decrypt F h = decrypt f h) \<and>
    decrypt F (count f + 4) = incr (decrypt f (stakedBalances l s)) v \<and>
    decrypt F (count f + 7) = incr (decrypt f (totalStaked l)) v"
proof -
  define f1 where "f1 = allowTransient (count f + 1) (methToken l) (snd (produce OpInput v f))"
  have c1: "count f1 = count f + 1"
    and d1: "\<And>h. decrypt f1 h = (if h = count f + 1 then v else decrypt f h)"
    by (simp_all add: f1_def allow_simps produce_simps)
  obtain r F L where app: "applyIncrease s (count f + 1) (f1, l) = (r, F, L)"
    by (metis prod_cases3)
  have nz: "count f + 1 \<noteq> 0" by simp
  note E = applyIncrease_E [OF app nz]
  have st: "step obliging (StakeExternal s (ExternalInput v True)) (f, (), l) = (F, (), L)"
    using app
    by (simp add: step_def stake_external_def fromExternal_def produce_simps internal_stake_def
          split_def isInitialized_def obliging_def f1_def)
  have "step obliging (StakeExternal s (ExternalInput v True)) (f, (), l) =
       (F, (), l\<lparr>stakedBalances := (stakedBalances l)(s := count f + 4),
                  totalStaked := count f + 7,
                  events := events l @ [Staked s (count f + 1) (count f + 4)]\<rparr>)"
    by (simp add: st E(2) c1 add.commute)
  moreover have "count F = count f + 7" by (simp add: E(3) c1)
  moreover have "decrypt F h = decrypt f h" if "h \<le> count f" for h
    using that E(6) [of h] by (simp add: c1 d1)
  moreover have "decrypt F (count f + 4) = incr (decrypt f (stakedBalances l s)) v"
    using E(7) assms by (simp add: c1 d1 add.commute)
  moreover have "decrypt F (count f + 7) = incr (decrypt f (totalStaked l)) v"
    using E(8) assms by (simp add: c1 d1 add.commute)
  ultimately show ?thesis by blast
qed

lemma incr_zero: "incr 0 v = v"
  using unsigned_less [of v, where ?'a = nat] by (simp add: incr_def)

lemma two_stakes:
  "\<exists>F1 F2.
    step obliging (StakeExternal 2 (ExternalInput v True)) (emptyFhe, (), ledgerAt 9 7) =
     (F1, (), (ledgerAt 9 7)\<lparr>stakedBalances := (\<lambda>a. 0)(2 := 4), totalStaked := 7,
                 events := [Staked 2 1 4]\<rparr>) \<and>
    decrypt F1 4 = v \<and> decrypt F1 7 = v \<and>
    step obliging (StakeExternal 3 (ExternalInput v' True))
       (step obliging (StakeExternal 2 (ExternalInput v True)) (emptyFhe, (), ledgerAt 9 7)) =
     (F2, (), (ledgerAt 9 7)\<lparr>stakedBalances := (\<lambda>a. 0)(2 := 4, 3 := 11), totalStaked := 14,
                events := [Staked 2 1 4, Staked 3 8 11]\<rparr>) \<and>
    count F2 = 14 \<and> decrypt F2 4 = v \<and> decrypt F2 11 = v' \<and> decrypt F2 14 = incr v v'"
proof -
  have c0: "count emptyFhe = 0" and d0: "\<And>h. decrypt emptyFhe h = 0"
    by (simp_all add: emptyFhe_def decrypt_def)
  let ?L1 = "(ledgerAt 9 7)\<lparr>stakedBalances := (\<lambda>a. 0)(2 := 4), totalStaked := 7,
                 events := [Staked 2 1 4]\<rparr>"
  obtain F1 where s1: "step obliging (StakeExternal 2 (ExternalInput v True))
        (emptyFhe, (), ledgerAt 9 7) = (F1, (), ?L1)"
    and c1: "count F1 = 7" and d14: "decrypt F1 4 = v" and d17: "decrypt F1 7 = v"
    using obliging_stake_external [of "ledgerAt 9 7" 2 emptyFhe v]
    by (auto simp add: c0 d0 ledgerAt_def incr_zero)
  have z: "decrypt F1 0 = 0" by (simp add: decrypt_def)
  obtain F2 where s2: "step obliging (StakeExternal 3 (ExternalInput v' True))
        (F1, (), ?L1) =
      (F2, (), (ledgerAt 9 7)\<lparr>stakedBalances := (\<lambda>a. 0)(2 := 4, 3 := 11), totalStaked := 14,
                 events := [Staked 2 1 4, Staked 3 8 11]\<rparr>)"
    and c2: "count F2 = 14" and old: "\<And>h. h \<le> 7 \<Longrightarrow> decrypt F2 h = decrypt F1 h"
    and d211: "decrypt F2 11 = v'" and d214: "decrypt F2 14 = incr v v'"
    using obliging_stake_external [of ?L1 3 F1 v']
    by (auto simp add: c1 d17 z ledgerAt_def incr_zero)
  from old [of 4] d14 have "decrypt F2 4 = v" by simp
  with s1 s2 c2 d211 d214 d14 d17 show ?thesis by simp
qed

text \<open>Claim C1, as amended. Start from the freshly constructed ledger, with a collaborator
  that leaves existing ciphertexts and grants alone, and let \<open>A\<close> be a finite set of
  accounts containing every caller of the sequence. If after every call the balances of
  \<open>A\<close> sum to at most \<open>2^64 - 1\<close>, then after every call the total decrypts to that sum.\<close>

theorem conservation_within_range:
  assumes "wellBehaved tok" and "finite A" and "sender_of ` set ks \<subseteq> A"
    and "freshWorld f c self tokenAddress = Inr w0"
    and "\<forall>w \<in> set (states tok w0 ks). sumStaked A w < 2 ^ 64"
  shows "\<forall>w \<in> set (states tok w0 ks). totalValue w = sumStaked A w"
proof
  fix w assume "w \<in> set (states tok w0 ks)"
  from states_conserved [OF assms(1,2) fresh_conserved [OF assms(4)] assms(3,5) this]
  show "totalValue w = sumStaked A w"
    by (cases w) (simp add: conserved_def)
qed

theorem conservation_within_range_witness:
  "wellBehaved obliging \<and> finite {2, 3 :: address} \<and>
   sender_of ` set [StakeExternal 2 (ExternalInput 400000 True),
                    StakeExternal 3 (ExternalInput 350000 True)] \<subseteq> {2, 3} \<and>
   freshWorld emptyFhe () 9 7 = Inr (emptyFhe, (), ledgerAt 9 7) \<and>
   sumStaked {2, 3} (emptyFhe, (), ledgerAt 9 7) = 0 \<and>
   sumStaked {2, 3} (step obliging (StakeExternal 2 (ExternalInput 400000 True))
      (emptyFhe, (), ledgerAt 9 7)) = 400000 \<and>
   sumStaked {2, 3} (step obliging (StakeExternal 3 (ExternalInput 350000 True))
      (step obliging (StakeExternal 2 (ExternalInput 400000 True))
         (emptyFhe, (), ledgerAt 9 7))) = 750000 \<and>
   totalValue (step obliging (StakeExternal 3 (ExternalInput 350000 True))
      (step obliging (StakeExternal 2 (ExternalInput 400000 True))
         (emptyFhe, (), ledgerAt 9 7))) = 750000"
proof -
  let ?k1 = "StakeExternal 2 (ExternalInput 400000 True)"
  let ?k2 = "StakeExternal 3 (ExternalInput 350000 True)"
  let ?w0 = "(emptyFhe, (), ledgerAt 9 7) :: unit world"
  have fr: "freshWorld emptyFhe () 9 7 = Inr ?w0"
    by (simp add: freshWorld_def constructor_def ledgerAt_def)
  have s0: "sumStaked {2, 3} ?w0 = 0"
    by (simp add: sumStaked_def balanceValue_def ledgerAt_def decrypt_def)
  have s1: "sumStaked {2, 3} (step obliging ?k1 ?w0) = 400000"
    and s2: "sumStaked {2, 3} (step obliging ?k2 (step obliging ?k1 ?w0)) = 750000"
    using two_stakes [of 400000 350000]
    by (auto simp add: sumStaked_def balanceValue_def decrypt_def)
  have rng: "\<forall>w \<in> set (states obliging ?w0 [?k1, ?k2]). sumStaked {2, 3} w < 2 ^ 64"
    by (simp add: s0 s1 s2)
  have snd: "sender_of ` set [?k1, ?k2] \<subseteq> {2, 3}" by simp
  have fin: "finite {2, 3 :: address}" by simp
  from conservation_within_range [OF obliging_wellBehaved fin snd fr rng]
  have "totalValue (step obliging ?k2 (step obliging ?k1 ?w0)) =
        sumStaked {2, 3} (step obliging ?k2 (step obliging ?k1 ?w0))"
    by simp
  with obliging_wellBehaved fin snd fr s0 s1 s2 show ?thesis by simp
qed

text \<open>The claim as stated fails: with a collaborator that moves every amount in full,
  account 2 stakes 1 and account 3 stakes \<open>2^64 - 1\<close>; the second increase of the total
  overflows and is dropped, so the total decrypts to 1 while the balances sum to \<open>2^64\<close>.\<close>

theorem conservation_counterexample:
  "totalValue (step obliging (StakeExternal 3 (ExternalInput 18446744073709551615 True))
     (step obliging (StakeExternal 2 (ExternalInput 1 True)) (emptyFhe, (), ledgerAt 9 7))) = 1 \<and>
   sumStaked {2, 3} (step obliging (StakeExternal 3 (ExternalInput 18446744073709551615 True))
     (step obliging (StakeExternal 2 (ExternalInput 1 True)) (emptyFhe, (), ledgerAt 9 7))) =
     18446744073709551616"
  using two_stakes [of 1 18446744073709551615]
  by (auto simp add: totalValue_def sumStaked_def balanceValue_def incr_def)

section \<open>Overflow on stake\<close>

text \<open>Claim C4, as amended. When the account's balance \<open>b\<close> and the transferred amount \<open>d\<close>
  satisfy \<open>b + d > 2^64 - 1\<close>, stake returns without error and the balance decrypts to its
  prior value. The total stays at its prior value exactly when the total plus \<open>d\<close> exceeds
  \<open>2^64 - 1\<close> as well (so whenever the total is at least \<open>b\<close>); otherwise it becomes the
  total plus \<open>d\<close>.\<close>

theorem stake_overflow_keeps_balance:
  assumes wb: "wellBehaved tok"
    and amt: "amt \<le> count f" and bal: "stakedBalances l s \<le> count f"
    and tot: "totalStaked l \<le> count f"
    and tr: "confidentialTransferFrom tok (thisAddress l) s (thisAddress l) amt
               (if isInitialized amt then allowTransient amt (methToken l) f else f, c) =
             Inr (t, f2, C)"
    and ovf: "balanceValue (f, c, l) s + unat (decrypt f2 t) > 2 ^ 64 - 1"
  shows "\<exists>F L. internal_stake tok s amt (f, c, l) = Inr (t, F, C, L) \<and>
           balanceValue (F, C, L) s = balanceValue (f, c, l) s \<and>
           totalValue (F, C, L) =
             (if totalValue (f, c, l) + unat (decrypt f2 t) > 2 ^ 64 - 1
              then totalValue (f, c, l) else totalValue (f, c, l) + unat (decrypt f2 t))"
proof -
  let ?f1 = "if isInitialized amt then allowTransient amt (methToken l) f else f"
  have e1: "extends f ?f1" and c1: "count ?f1 = count f"
    by (simp_all add: extends_allowTransient extends_refl allow_simps)
  from amt c1 have "amt \<le> count ?f1" by simp
  from wellBehaved_from [OF wb this tr] have e2: "extends ?f1 f2" and t: "t \<le> count f2" .
  have le: "count f \<le> count f2"
    using e1 e2 by (simp add: extends_def)
  have keep: "decrypt f2 h = decrypt f h" if "h \<le> count f" for h
    using that decrypt_extends [OF e1, of h] decrypt_extends [OF e2, of h] c1
    by simp
  have nz: "t \<noteq> 0"
  proof
    assume "t = 0"
    then have "unat (decrypt f2 t) = 0" by (simp add: decrypt_def)
    with ovf unsigned_less [of "decrypt f (stakedBalances l s)", where ?'a = nat]
    show False by (simp add: balanceValue_def)
  qed
  obtain r F L where app: "applyIncrease s t (f2, l) = (r, F, L)"
    by (metis prod_cases3)
  note E = applyIncrease_E [OF app nz]
  have run: "internal_stake tok s amt (f, c, l) = Inr (t, F, C, L)"
    using tr app E(1) by (simp add: internal_stake_def)
  have b2: "stakedBalances l s \<le> count f2" and t2: "totalStaked l \<le> count f2"
    using bal tot le by simp_all
  have nb: "decrypt F (stakedBalances L s) =
              incr (decrypt f (stakedBalances l s)) (decrypt f2 t)"
    using E(7) [OF t b2] keep [OF bal] by (simp add: E(2))
  have nt: "decrypt F (totalStaked L) = incr (decrypt f (totalStaked l)) (decrypt f2 t)"
    using E(8) [OF t t2] keep [OF tot] by (simp add: E(2))
  have "balanceValue (F, C, L) s = balanceValue (f, c, l) s"
    using ovf by (simp add: balanceValue_def nb unat_incr)
  moreover have "totalValue (F, C, L) =
             (if totalValue (f, c, l) + unat (decrypt f2 t) > 2 ^ 64 - 1
              then totalValue (f, c, l) else totalValue (f, c, l) + unat (decrypt f2 t))"
    by (auto simp add: totalValue_def nt unat_incr)
  ultimately show ?thesis using run by blast
qed

theorem stake_overflow_keeps_balance_witness:
  "wellBehaved obliging \<and> (3::nat) \<le> count fullFhe \<and>
   stakedBalances fullLedger 3 \<le> count fullFhe \<and> totalStaked fullLedger \<le> count fullFhe \<and>
   confidentialTransferFrom obliging 9 3 9 3 (allowTransient 3 7 fullFhe, ()) =
     Inr (3, allowTransient 3 7 fullFhe, ()) \<and>
   balanceValue (fullFhe, (), fullLedger) 3 + unat (decrypt (allowTransient 3 7 fullFhe) 3)
     > 2 ^ 64 - 1 \<and>
   (\<exists>F L. internal_stake obliging 3 3 (fullFhe, (), fullLedger) = Inr (3, F, (), L) \<and>
      balanceValue (F, (), L) 3 = 18446744073709551615 \<and>
      totalValue (F, (), L) = 18446744073709551615)"
proof -
  have h1: "(3::nat) \<le> count fullFhe" and h2: "stakedBalances fullLedger 3 \<le> count fullFhe"
    and h3: "totalStaked fullLedger \<le> count fullFhe"
    by (simp_all add: fullFhe_def fullLedger_def ledgerAt_def)
  have tr: "confidentialTransferFrom obliging (thisAddress fullLedger) 3 (thisAddress fullLedger) 3
              (if isInitialized 3 then allowTransient 3 (methToken fullLedger) fullFhe
               else fullFhe, ()) = Inr (3, allowTransient 3 7 fullFhe, ())"
    by (simp add: obliging_def isInitialized_def fullLedger_def ledgerAt_def)
  have d: "decrypt (allowTransient 3 7 fullFhe) 3 = 1"
    by (simp add: allowTransient_def decrypt_def fullFhe_def)
  have b: "balanceValue (fullFhe, (), fullLedger) 3 = 18446744073709551615"
    and tv: "totalValue (fullFhe, (), fullLedger) = 18446744073709551615"
    by (simp_all add: balanceValue_def totalValue_def decrypt_def fullFhe_def fullLedger_def
          ledgerAt_def)
  have ovf: "balanceValue (fullFhe, (), fullLedger) 3 +
               unat (decrypt (allowTransient 3 7 fullFhe) 3) > 2 ^ 64 - 1"
    by (simp add: b d)
  from stake_overflow_keeps_balance [OF obliging_wellBehaved h1 h2 h3 tr ovf]
  have "\<exists>F L. internal_stake obliging 3 3 (fullFhe, (), fullLedger) = Inr (3, F, (), L) \<and>
      balanceValue (F, (), L) 3 = 18446744073709551615 \<and>
      totalValue (F, (), L) = 18446744073709551615"
    by (simp add: b tv d)
  moreover have "confidentialTransferFrom obliging 9 3 9 3 (allowTransient 3 7 fullFhe, ()) =
     Inr (3, allowTransient 3 7 fullFhe, ())"
    by (simp add: obliging_def)
  ultimately show ?thesis
    using obliging_wellBehaved h1 h2 h3 ovf by blast
qed

text \<open>The claim as stated fails in a state the ledger reaches: after account 2 staked 1
  and account 3 staked \<open>2^64 - 1\<close> the total decrypts to 1; account 3 then stakes 1, its
  balance stays \<open>2^64 - 1\<close>, and the total moves from 1 to 2.\<close>

theorem stake_overflow_total_counterexample:
  "balanceValue (step obliging (StakeExternal 3 (ExternalInput 18446744073709551615 True))
     (step obliging (StakeExternal 2 (ExternalInput 1 True)) (emptyFhe, (), ledgerAt 9 7))) 3 + 1
     > 2 ^ 64 - 1 \<and>
   totalValue (step obliging (StakeExternal 3 (ExternalInput 18446744073709551615 True))
     (step obliging (StakeExternal 2 (ExternalInput 1 True)) (emptyFhe, (), ledgerAt 9 7))) = 1 \<and>
   balanceValue (step obliging (StakeExternal 3 (ExternalInput 1 True))
     (step obliging (StakeExternal 3 (ExternalInput 18446744073709551615 True))
       (step obliging (StakeExternal 2 (ExternalInput 1 True)) (emptyFhe, (), ledgerAt 9 7)))) 3 =
     18446744073709551615 \<and>
   totalValue (step obliging (StakeExternal 3 (ExternalInput 1 True))
     (step obliging (StakeExternal 3 (ExternalInput 18446744073709551615 True))
       (step obliging (StakeExternal 2 (ExternalInput 1 True)) (emptyFhe, (), ledgerAt 9 7)))) = 2"
proof -
  let ?L2 = "(ledgerAt 9 7)\<lparr>stakedBalances := (\<lambda>a. 0)(2 := 4, 3 := 11), totalStaked := 14,
                events := [Staked 2 1 4, Staked 3 8 11]\<rparr>"
  from two_stakes [of 1 18446744073709551615] obtain F2 where
    s2: "step obliging (StakeExternal 3 (ExternalInput 18446744073709551615 True))
       (step obliging (StakeExternal 2 (ExternalInput 1 True)) (emptyFhe, (), ledgerAt 9 7)) =
     (F2, (), ?L2)"
    and c2: "count F2 = 14" and d11: "decrypt F2 11 = 18446744073709551615"
    and d14: "decrypt F2 14 = 1"
    by (auto simp add: incr_def)
  from obliging_stake_external [of ?L2 3 F2 1] obtain F3 where
    s3: "step obliging (StakeExternal 3 (ExternalInput 1 True)) (F2, (), ?L2) =
      (F3, (), ?L2\<lparr>stakedBalances := (stakedBalances ?L2)(3 := 18), totalStaked := 21,
                    events := events ?L2 @ [Staked 3 15 18]\<rparr>)"
    and d18: "decrypt F3 18 = 18446744073709551615" and d21: "decrypt F3 21 = 2"
    by (auto simp add: c2 d11 d14 ledgerAt_def incr_def)
  show ?thesis
    using s2 s3 d11 d14 d18 d21
    by (simp add: balanceValue_def totalValue_def)
qed

section \<open>The reference custodian\<close>

lemma custody_update_E:
  assumes "custody_update src dst amt (f, c) = (t, F, C)"
  shows "t = count f + 5"
    "C = c\<lparr>balances := (balances c)(src := count f + 3, dst := count f + 6)\<rparr>"
    "count F = count f + 6"
    "transient F = transient f"
    "acl f \<subseteq> acl F"
    "h \<le> count f \<Longrightarrow> decrypt F h = decrypt f h"
    "amt \<le> count f \<Longrightarrow> balances c src \<le> count f \<Longrightarrow>
       decrypt F (count f + 3) = decr (decrypt f (balances c src)) (decrypt f amt)"
    "amt \<le> count f \<Longrightarrow> balances c src \<le> count f \<Longrightarrow>
       decrypt F (count f + 5) =
         (if decrypt f amt \<le> decrypt f (balances c src) then decrypt f amt else 0)"
    "amt \<le> count f \<Longrightarrow> balances c src \<le> count f \<Longrightarrow> balances c dst \<le> count f \<Longrightarrow>
       decrypt F (count f + 6) =
         (if dst = src then decr (decrypt f (balances c src)) (decrypt f amt)
          else decrypt f (balances c dst)) +
         (if decrypt f amt \<le> decrypt f (balances c src) then decrypt f amt else 0)"
proof -
  obtain ok u f1 where t: "tryDecrease (balances c src) amt f = ((ok, u), f1)"
    by (metis surj_pair)
  note T = tryDecrease_E [OF t]
  define f2 where "f2 = allow u src (allow u (custodyAddress c) f1)"
  define f3 where "f3 = snd (asEuint64 0 f2)"
  define f4 where "f4 = snd (FHE_select ok amt (count f + 4) f3)"
  define b1 where "b1 = (balances c)(src := u)"
  define f5 where "f5 = snd (FHE_add (b1 dst) (count f + 5) f4)"
  define f6 where "f6 = allow (count f + 6) dst (allow (count f + 6) (custodyAddress c) f5)"
  define f7 where "f7 = allow (count f + 5) dst (allow (count f + 5) src
                          (allow (count f + 5) (custodyAddress c) f6))"
  have c2: "count f2 = count f + 3" by (simp add: f2_def allow_simps T)
  have c3: "fst (asEuint64 0 f2) = count f + 4" "count f3 = count f + 4"
    by (simp_all add: f3_def asEuint64_def produce_simps c2)
  have c4: "fst (FHE_select ok amt (count f + 4) f3) = count f + 5" "count f4 = count f + 5"
    by (simp_all add: f4_def FHE_select_def produce_simps c3)
  have c5: "fst (FHE_add (b1 dst) (count f + 5) f4) = count f + 6" "count f5 = count f + 6"
    by (simp_all add: f5_def FHE_add_def produce_simps c4)
  have res: "t = count f + 5" "F = f7" "C = c\<lparr>balances := b1(dst := count f + 6)\<rparr>"
    using assms t c3 c4 c5
    by (auto simp add: custody_update_def Let_def f2_def f3_def f4_def f5_def f6_def f7_def
          b1_def split: prod.splits)
  have d7: "decrypt f7 x = decrypt f5 x" for x
    by (simp add: f7_def f6_def allow_simps)
  have d5: "decrypt f5 x = (if x = count f + 6
              then decrypt f4 (b1 dst) + decrypt f4 (count f + 5) else decrypt f4 x)" for x
    by (simp add: f5_def FHE_add_def produce_simps c4 add.commute)
  have d4: "decrypt f4 x = (if x = count f + 5
              then (if decrypt f3 ok \<noteq> 0 then decrypt f3 amt else decrypt f3 (count f + 4))
              else decrypt f3 x)" for x
    by (simp add: f4_def FHE_select_def produce_simps c3 add.commute)
  have d3: "decrypt f3 x = (if x = count f + 4 then 0 else decrypt f1 x)" for x
    by (simp add: f3_def f2_def asEuint64_def produce_simps allow_simps T add.commute)
  show "t = count f + 5" by (rule res)
  show "C = c\<lparr>balances := (balances c)(src := count f + 3, dst := count f + 6)\<rparr>"
    by (simp add: res b1_def T)
  show "count F = count f + 6" by (simp add: res f7_def f6_def allow_simps c5)
  show "transient F = transient f"
    by (simp add: res f7_def f6_def f5_def f4_def f3_def f2_def allow_simps FHE_add_def
          FHE_select_def asEuint64_def produce_simps T)
  show "acl f \<subseteq> acl F"
    by (auto simp add: res f7_def f6_def f5_def f4_def f3_def f2_def allow_simps FHE_add_def
          FHE_select_def asEuint64_def produce_simps T)
  show "decrypt F h = decrypt f h" if "h \<le> count f"
    using that by (simp add: res d7 d5 d4 d3 T(6))
  show "decrypt F (count f + 3) = decr (decrypt f (balances c src)) (decrypt f amt)"
    if "amt \<le> count f" "balances c src \<le> count f"
    using that by (simp add: res d7 d5 d4 d3 T(7))
  have tv: "decrypt f4 (count f + 5) =
         (if decrypt f amt \<le> decrypt f (balances c src) then decrypt f amt else 0)"
    if "amt \<le> count f" "balances c src \<le> count f"
    using that T(8) by (simp add: d4 d3 T(6) T(1))
  show "decrypt F (count f + 5) =
         (if decrypt f amt \<le> decrypt f (balances c src) then decrypt f amt else 0)"
    if "amt \<le> count f" "balances c src \<le> count f"
    using that tv by (simp add: res d7 d5)
  show "decrypt F (count f + 6) =
         (if dst = src then decr (decrypt f (balances c src)) (decrypt f amt)
          else decrypt f (balances c dst)) +
         (if decrypt f amt \<le> decrypt f (balances c src) then decrypt f amt else 0)"
    if "amt \<le> count f" "balances c src \<le> count f" "balances c dst \<le> count f"
  proof -
    have "decrypt f4 (b1 dst) =
            (if dst = src then decr (decrypt f (balances c src)) (decrypt f amt)
             else decrypt f (balances c dst))"
      using that T(7) by (simp add: b1_def d4 d3 T(6) T(2))
    with tv [OF that(1,2)] show ?thesis
      by (simp add: res d7 d5)
  qed
qed

lemma custodian_wellBehaved: "wellBehaved custodian"
proof -
  have a: "extends f F \<and> t \<le> count F"
    if "custody_update src dst amt (f, c) = (t, F, C)" for src dst amt f c t F C
    using custody_update_E(1,3,5,6) [OF that] by (simp add: extends_def)
  have b: "extends f (allowTransient t caller F) \<and> t \<le> count (allowTransient t caller F)"
    if "custody_update src dst amt (f, c) = (t, F, C)" for src dst amt f c t F C caller
    using a [OF that] by (simp add: extends_def allow_simps)
  show ?thesis
    unfolding wellBehaved_def custodian_def
    by (auto split: if_splits prod.splits dest: a b)
qed

lemma decr_zero: "decr x 0 = x"
  by (simp add: decr_def)

lemma custodian_zeroNeutral: "zeroNeutral custodian"
proof -
  have "decrypt F t = 0 \<and> (\<forall>x. decrypt F (balances C x) = decrypt f (balances c x))"
    if u: "custody_update src d a (f, c) = (t, F, C)" and a: "a \<le> count f"
      and z: "decrypt f a = 0" and b: "\<forall>y. balances c y \<le> count f"
    for src d a f c t F C
  proof -
    note E = custody_update_E [OF u]
    from b have bs: "balances c src \<le> count f" and bd: "balances c d \<le> count f" by simp_all
    have "decrypt F t = 0" using E(8) [OF a bs] z by (simp add: E(1))
    moreover have "decrypt F (balances C x) = decrypt f (balances c x)" for x
    proof -
      consider "x = d" | "x \<noteq> d" "x = src" | "x \<noteq> d" "x \<noteq> src" by blast
      then show ?thesis
      proof cases
        case 1
        then show ?thesis using E(9) [OF a bs bd] z by (simp add: E(2) decr_zero)
      next
        case 2
        then show ?thesis using E(7) [OF a bs] z by (simp add: E(2) decr_zero)
      next
        case 3
        then show ?thesis using E(6) [of "balances c x"] b by (simp add: E(2))
      qed
    qed
    ultimately show ?thesis by blast
  qed
  then show ?thesis
    unfolding zeroNeutral_def custodian_def
    by (auto split: if_splits)
qed

section \<open>What stake credits\<close>

lemma incr_by_zero: "incr x 0 = x"
  using unsigned_less [of x, where ?'a = nat] by (simp add: incr_def)

lemma staked_facts:
  "count stakedFhe = 6" "decrypt stakedFhe 2 = 300" "decrypt stakedFhe 3 = 300"
  "decrypt stakedFhe 4 = 700" "decrypt stakedFhe 5 = 300" "decrypt stakedFhe 6 = 600"
  "isAllowed stakedFhe 6 4" "transient stakedFhe = {}"
  "stakedBalances stakedLedger = (\<lambda>a. 0)(4 := 2)" "totalStaked stakedLedger = 3"
  "thisAddress stakedLedger = 9" "methToken stakedLedger = 7" "events stakedLedger = []"
  "custodyAddress stakedCustody = 7" "balances stakedCustody = (\<lambda>a. 0)(4 := 4, 9 := 5)"
  by (simp_all add: stakedFhe_def stakedLedger_def stakedCustody_def ledgerAt_def decrypt_def
        isAllowed_def)

lemma custodian_unstake_returns:
  assumes "isAllowed f amt s" and "methToken l = custodyAddress c"
  shows "\<exists>r F C L. unstake custodian s amt (f, c, l) = Inr (r, F, C, L)"
proof -
  obtain a f7 l2 where core: "unstake_core s amt (f, l) = (a, f7, l2)"
    by (metis prod_cases3)
  note E = unstake_core_E [OF core]
  have "isAllowed f7 a (custodyAddress c)"
    using assms(2) by (simp add: isAllowed_def E(1,3,4))
  then show ?thesis
    using assms(1) core
    by (simp add: unstake_def internal_unstake_eq custodian_def split: prod.splits)
qed

text \<open>Claim C7. Whatever amount was requested, when the collaborator's
  \<open>confidentialTransferFrom\<close> returns a value, stake returns that value, and the balance
  and the total are each the safe increase of their prior value by the plaintext of that
  value: the requested amount does not enter. The collaborator is assumed to leave
  existing ciphertexts alone, and the stored handles to name ciphertexts.\<close>

theorem stake_credits_transferred:
  assumes wb: "wellBehaved tok"
    and amt: "amt \<le> count f" and bal: "stakedBalances l s \<le> count f"
    and tot: "totalStaked l \<le> count f"
    and tr: "confidentialTransferFrom tok (thisAddress l) s (thisAddress l) amt
               (if isInitialized amt then allowTransient amt (methToken l) f else f, c) =
             Inr (t, f2, C)"
  shows "\<exists>F L. internal_stake tok s amt (f, c, l) = Inr (t, F, C, L) \<and>
           decrypt F t = decrypt f2 t \<and>
           decrypt F (stakedBalances L s) =
             incr (decrypt f (stakedBalances l s)) (decrypt f2 t) \<and>
           decrypt F (totalStaked L) = incr (decrypt f (totalStaked l)) (decrypt f2 t)"
proof -
  let ?f1 = "if isInitialized amt then allowTransient amt (methToken l) f else f"
  have e1: "extends f ?f1" and c1: "count ?f1 = count f"
    by (simp_all add: extends_allowTransient extends_refl allow_simps)
  from amt c1 have "amt \<le> count ?f1" by simp
  from wellBehaved_from [OF wb this tr] have e2: "extends ?f1 f2" and t: "t \<le> count f2" .
  have le: "count f \<le> count f2"
    using e1 e2 by (simp add: extends_def)
  have keep: "decrypt f2 h = decrypt f h" if "h \<le> count f" for h
    using that decrypt_extends [OF e1, of h] decrypt_extends [OF e2, of h] c1
    by simp
  show ?thesis
  proof (cases "t = 0")
    case True
    then have "internal_stake tok s amt (f, c, l) = Inr (t, f2, C, l)"
      using tr by (simp add: internal_stake_def applyIncrease_uninit)
    moreover have "decrypt f2 t = 0" using True by (simp add: decrypt_def)
    ultimately show ?thesis
      using keep [OF bal] keep [OF tot] by (simp add: incr_by_zero)
  next
    case False
    obtain r F L where app: "applyIncrease s t (f2, l) = (r, F, L)"
      by (metis prod_cases3)
    note E = applyIncrease_E [OF app False]
    have run: "internal_stake tok s amt (f, c, l) = Inr (t, F, C, L)"
      using tr app E(1) by (simp add: internal_stake_def)
    have b2: "stakedBalances l s \<le> count f2" and t2: "totalStaked l \<le> count f2"
      using bal tot le by simp_all
    have nb: "decrypt F (stakedBalances L s) =
                incr (decrypt f (stakedBalances l s)) (decrypt f2 t)"
      using E(7) [OF t b2] keep [OF bal] by (simp add: E(2))
    have nt: "decrypt F (totalStaked L) = incr (decrypt f (totalStaked l)) (decrypt f2 t)"
      using E(8) [OF t t2] keep [OF tot] by (simp add: E(2))
    have "decrypt F t = decrypt f2 t" using E(6) [OF t] .
    with run nb nt show ?thesis by blast
  qed
qed

theorem stake_credits_transferred_witness:
  "wellBehaved custodian \<and> (3::nat) \<le> count poorFhe \<and>
   stakedBalances (ledgerAt 9 7) 4 \<le> count poorFhe \<and> totalStaked (ledgerAt 9 7) \<le> count poorFhe \<and>
   decrypt poorFhe 3 = 500 \<and>
   (\<exists>f2 C. confidentialTransferFrom custodian 9 4 9 3 (allowTransient 3 7 poorFhe, poorCustody) =
        Inr (8, f2, C) \<and> decrypt f2 8 = 0 \<and>
      (\<exists>F L. internal_stake custodian 4 3 (poorFhe, poorCustody, ledgerAt 9 7) = Inr (8, F, C, L) \<and>
         decrypt F (stakedBalances L 4) = 0 \<and> decrypt F (totalStaked L) = 0))"
proof -
  let ?f1 = "allowTransient 3 7 poorFhe"
  have h1: "(3::nat) \<le> count poorFhe" and h2: "stakedBalances (ledgerAt 9 7) 4 \<le> count poorFhe"
    and h3: "totalStaked (ledgerAt 9 7) \<le> count poorFhe"
    by (simp_all add: poorFhe_def ledgerAt_def)
  have d3: "decrypt poorFhe 3 = 500" by (simp add: decrypt_def poorFhe_def)
  have c1: "count ?f1 = 3" and d13: "decrypt ?f1 3 = 500" and d12: "decrypt ?f1 2 = 100"
    by (simp_all add: allowTransient_def decrypt_def poorFhe_def)
  obtain t F1 C where u: "custody_update 4 9 3 (?f1, poorCustody) = (t, F1, C)"
    by (metis prod_cases3)
  note U = custody_update_E [OF u]
  have t: "t = 8" by (simp add: U(1) c1)
  have al: "isAllowed ?f1 3 (custodyAddress poorCustody)"
    by (simp add: isAllowed_def allowTransient_def poorFhe_def poorCustody_def)
  have tr0: "confidentialTransferFrom custodian 9 4 9 3 (?f1, poorCustody) =
          Inr (8, allowTransient 8 9 F1, C)"
    using al u t by (simp add: custodian_def)
  have "decrypt F1 8 = 0"
    using U(8) by (simp add: c1 d13 d12 poorCustody_def)
  then have z: "decrypt (allowTransient 8 9 F1) 8 = 0"
    by (simp add: allow_simps)
  have tr: "confidentialTransferFrom custodian (thisAddress (ledgerAt 9 7)) 4
              (thisAddress (ledgerAt 9 7)) 3
              (if isInitialized 3 then allowTransient 3 (methToken (ledgerAt 9 7)) poorFhe
               else poorFhe, poorCustody) = Inr (8, allowTransient 8 9 F1, C)"
    using tr0 by (simp add: isInitialized_def ledgerAt_def)
  have i0: "incr 0 0 = 0" by (simp add: incr_def)
  have b0: "decrypt poorFhe (stakedBalances (ledgerAt 9 7) 4) = 0"
    and t0: "decrypt poorFhe (totalStaked (ledgerAt 9 7)) = 0"
    by (simp_all add: ledgerAt_def decrypt_def)
  from stake_credits_transferred [OF custodian_wellBehaved h1 h2 h3 tr]
  have "\<exists>F L. internal_stake custodian 4 3 (poorFhe, poorCustody, ledgerAt 9 7) = Inr (8, F, C, L) \<and>
         decrypt F (stakedBalances L 4) = 0 \<and> decrypt F (totalStaked L) = 0"
    by (auto simp add: z i0 b0 t0)
  with tr0 z custodian_wellBehaved h1 h2 h3 d3 show ?thesis by blast
qed

section \<open>Unstaking more than the balance\<close>

text \<open>Claim C2. When the plaintext of the amount exceeds the plaintext of the account's
  balance, the unstake transaction leaves the decrypted balance, the decrypted total and
  the account's decrypted custody balance as they were, and whenever the call returns,
  the applied amount and the returned transferred value decrypt to zero. The collaborator
  is assumed to leave existing ciphertexts alone and to move nothing when asked to move an
  encrypted zero.\<close>

theorem unstake_above_balance_is_noop:
  assumes wb: "wellBehaved tok" and zn: "zeroNeutral tok"
    and bal: "stakedBalances l s \<le> count f" and tot: "totalStaked l \<le> count f"
    and cb: "\<forall>y. confidentialBalanceOf tok c y \<le> count f"
    and gt: "decrypt f (stakedBalances l s) < decrypt f amt"
  shows "balanceValue (step tok (Unstake s amt) (f, c, l)) s = balanceValue (f, c, l) s \<and>
         totalValue (step tok (Unstake s amt) (f, c, l)) = totalValue (f, c, l) \<and>
         custodyValue tok (step tok (Unstake s amt) (f, c, l)) s = custodyValue tok (f, c, l) s \<and>
         (\<forall>r F C L. unstake tok s amt (f, c, l) = Inr (r, F, C, L) \<longrightarrow>
            decrypt F r = 0 \<and> decrypt F (fst (unstake_core s amt (f, l))) = 0)"
proof -
  have main: "balanceValue (F, C, L) s = balanceValue (f, c, l) s \<and>
      totalValue (F, C, L) = totalValue (f, c, l) \<and>
      custodyValue tok (F, C, L) s = custodyValue tok (f, c, l) s \<and>
      decrypt F r = 0 \<and> decrypt F (fst (unstake_core s amt (f, l))) = 0"
    if run: "unstake tok s amt (f, c, l) = Inr (r, F, C, L)" for r F C L
  proof -
    from run have amt: "amt \<le> count f"
      and iu: "internal_unstake tok s amt (f, c, l) = Inr (r, F, C, L)"
      by (auto simp add: unstake_def isAllowed_def split: if_splits)
    from iu obtain a f7 l2 where core: "unstake_core s amt (f, l) = (a, f7, l2)"
      and tr: "confidentialTransfer tok (thisAddress l2) s a (f7, c) = Inr (r, F, C)"
      and L: "L = l2\<lparr>events := events l2 @ [Unstaked s r (stakedBalances l2 s)]\<rparr>"
      by (elim internal_unstake_E)
    note E = unstake_core_E [OF core]
    have no: "\<not> decrypt f amt \<le> decrypt f (stakedBalances l s)" using gt by simp
    have a7: "a \<le> count f7" by (simp add: E(1,3))
    have za: "decrypt f7 a = 0" using E(8) [OF amt bal] no by (simp add: E(1))
    have cb7: "\<forall>y. confidentialBalanceOf tok c y \<le> count f7"
      using cb by (auto simp add: E(3) intro: le_trans)
    from wellBehaved_to [OF wb a7 tr] have e: "extends f7 F" by simp
    from zn a7 za cb7 tr have zr: "decrypt F r = 0"
      and cu: "\<And>x. decrypt F (confidentialBalanceOf tok C x) =
                   decrypt f7 (confidentialBalanceOf tok c x)"
      unfolding zeroNeutral_def by blast+
    have nb: "decrypt f7 (stakedBalances l2 s) = decrypt f (stakedBalances l s)"
      using E(7) [OF amt bal] no by (simp add: E(2) decr_def)
    have nt: "decrypt f7 (totalStaked l2) = decrypt f (totalStaked l)"
      using E(9) [OF amt bal tot] no by (simp add: E(2) decr_zero)
    have sb: "stakedBalances l2 s \<le> count f7" and st: "totalStaked l2 \<le> count f7"
      by (simp_all add: E(2,3))
    have "balanceValue (F, C, L) s = balanceValue (f, c, l) s"
      using decrypt_extends [OF e sb] nb by (simp add: balanceValue_def L)
    moreover have "totalValue (F, C, L) = totalValue (f, c, l)"
      using decrypt_extends [OF e st] nt by (simp add: totalValue_def L)
    moreover have "custodyValue tok (F, C, L) s = custodyValue tok (f, c, l) s"
      using cu [of s] E(6) [of "confidentialBalanceOf tok c s"] cb
      by (simp add: custodyValue_def)
    moreover have "decrypt F (fst (unstake_core s amt (f, l))) = 0"
      using decrypt_extends [OF e a7] za by (simp add: core)
    ultimately show ?thesis using zr by blast
  qed
  show ?thesis
  proof (cases "unstake tok s amt (f, c, l)")
    case (Inl e)
    then show ?thesis by (simp add: step_def)
  next
    case (Inr x)
    then obtain r F C L where run: "unstake tok s amt (f, c, l) = Inr (r, F, C, L)"
      by (cases x) auto
    from main [OF run] run show ?thesis by (simp add: step_def)
  qed
qed

theorem unstake_above_balance_is_noop_witness:
  "wellBehaved custodian \<and> zeroNeutral custodian \<and>
   stakedBalances stakedLedger 4 \<le> count stakedFhe \<and> totalStaked stakedLedger \<le> count stakedFhe \<and>
   (\<forall>y. confidentialBalanceOf custodian stakedCustody y \<le> count stakedFhe) \<and>
   decrypt stakedFhe (stakedBalances stakedLedger 4) < decrypt stakedFhe 6 \<and>
   balanceValue (step custodian (Unstake 4 6) (stakedFhe, stakedCustody, stakedLedger)) 4 = 300 \<and>
   totalValue (step custodian (Unstake 4 6) (stakedFhe, stakedCustody, stakedLedger)) = 300 \<and>
   custodyValue custodian (step custodian (Unstake 4 6) (stakedFhe, stakedCustody, stakedLedger)) 4
     = 700 \<and>
   (\<exists>r F C L. unstake custodian 4 6 (stakedFhe, stakedCustody, stakedLedger) = Inr (r, F, C, L) \<and>
      decrypt F r = 0)"
proof -
  have h1: "stakedBalances stakedLedger 4 \<le> count stakedFhe"
    and h2: "totalStaked stakedLedger \<le> count stakedFhe"
    and h3: "\<forall>y. confidentialBalanceOf custodian stakedCustody y \<le> count stakedFhe"
    and h4: "decrypt stakedFhe (stakedBalances stakedLedger 4) < decrypt stakedFhe 6"
    by (simp_all add: staked_facts custodian_def)
  have v: "balanceValue (stakedFhe, stakedCustody, stakedLedger) 4 = 300"
    "totalValue (stakedFhe, stakedCustody, stakedLedger) = 300"
    "custodyValue custodian (stakedFhe, stakedCustody, stakedLedger) 4 = 700"
    by (simp_all add: balanceValue_def totalValue_def custodyValue_def staked_facts custodian_def)
  from custodian_unstake_returns [of stakedFhe 6 4 stakedLedger stakedCustody]
  obtain r F C L where
    run: "unstake custodian 4 6 (stakedFhe, stakedCustody, stakedLedger) = Inr (r, F, C, L)"
    by (auto simp add: staked_facts)
  note T = unstake_above_balance_is_noop [OF custodian_wellBehaved custodian_zeroNeutral h1 h2 h3 h4]
  from T run have "decrypt F r = 0" by blast
  with run T v custodian_wellBehaved custodian_zeroNeutral h1 h2 h3 h4
  show ?thesis by (simp only: simp_thms) blast
qed

section \<open>The Unstaked event\<close>

text \<open>Claim C6, as amended. Every unstake that returns has appended exactly one
  \<open>Unstaked\<close> record; its balance field is the new balance stored for the account, the
  result of the safe decrease; its amount field is the value the collaborator's
  \<open>confidentialTransfer\<close> returned for the applied amount, which is also the value unstake
  returns.\<close>

theorem unstake_emits_collaborator_result:
  assumes "internal_unstake tok s amt (f, c, l) = Inr (r, F, C, L)"
  shows "events L = events l @ [Unstaked s r (stakedBalances L s)] \<and>
         stakedBalances L s = snd (fst (tryDecrease (stakedBalances l s) amt f)) \<and>
         confidentialTransfer tok (thisAddress l) s (fst (unstake_core s amt (f, l)))
           (fst (snd (unstake_core s amt (f, l))), c) = Inr (r, F, C)"
proof -
  from assms obtain a f7 l2 where core: "unstake_core s amt (f, l) = (a, f7, l2)"
    and tr: "confidentialTransfer tok (thisAddress l2) s a (f7, c) = Inr (r, F, C)"
    and L: "L = l2\<lparr>events := events l2 @ [Unstaked s r (stakedBalances l2 s)]\<rparr>"
    by (elim internal_unstake_E)
  note E = unstake_core_E [OF core]
  obtain ok u f1 where t: "tryDecrease (stakedBalances l s) amt f = ((ok, u), f1)"
    by (metis surj_pair)
  note T = tryDecrease_E [OF t]
  show ?thesis
    using tr by (simp add: L E(2) core t T(2))
qed

theorem unstake_emits_collaborator_result_witness:
  "\<exists>r F C L. internal_unstake custodian 4 6 (stakedFhe, stakedCustody, stakedLedger) =
       Inr (r, F, C, L) \<and>
     events L = [Unstaked 4 r (stakedBalances L 4)] \<and>
     stakedBalances L 4 = snd (fst (tryDecrease 2 6 stakedFhe)) \<and>
     confidentialTransfer custodian 9 4 (fst (unstake_core 4 6 (stakedFhe, stakedLedger)))
       (fst (snd (unstake_core 4 6 (stakedFhe, stakedLedger))), stakedCustody) = Inr (r, F, C)"
proof -
  from custodian_unstake_returns [of stakedFhe 6 4 stakedLedger stakedCustody]
  obtain r F C L where
    "unstake custodian 4 6 (stakedFhe, stakedCustody, stakedLedger) = Inr (r, F, C, L)"
    by (auto simp add: staked_facts)
  then have run: "internal_unstake custodian 4 6 (stakedFhe, stakedCustody, stakedLedger) =
      Inr (r, F, C, L)"
    by (simp add: unstake_def staked_facts)
  from unstake_emits_collaborator_result [OF run] run show ?thesis
    by (simp add: staked_facts)
qed

text \<open>The claim as stated fails: account 4 has staked 300 and unstakes 200, so the applied
  amount decrypts to 200, but the custodian holds only 100 for the ledger and moves
  nothing; the amount field of the event decrypts to 0.\<close>

theorem unstake_event_amount_counterexample:
  "events (snd (snd (step custodian (Unstake 4 6) (shortFhe, stakedCustody, stakedLedger)))) \<noteq> [] \<and>
   decrypt (fst (step custodian (Unstake 4 6) (shortFhe, stakedCustody, stakedLedger)))
     (eventAmount (last (events (snd (snd
        (step custodian (Unstake 4 6) (shortFhe, stakedCustody, stakedLedger))))))) = 0 \<and>
   decrypt (fst (step custodian (Unstake 4 6) (shortFhe, stakedCustody, stakedLedger)))
     (fst (unstake_core 4 6 (shortFhe, stakedLedger))) = 200"
proof -
  have sf: "count shortFhe = 6" "decrypt shortFhe 2 = 300" "decrypt shortFhe 5 = 100"
    "decrypt shortFhe 6 = 200" "isAllowed shortFhe 6 4"
    by (simp_all add: shortFhe_def decrypt_def isAllowed_def)
  obtain a f7 l2 where core: "unstake_core 4 6 (shortFhe, stakedLedger) = (a, f7, l2)"
    by (metis prod_cases3)
  note E = unstake_core_E [OF core]
  have a: "a = 11" and c7: "count f7 = 14" by (simp_all add: E(1,3) sf)
  have d11: "decrypt f7 11 = 200"
    using E(8) by (simp add: sf staked_facts)
  have d5: "decrypt f7 5 = 100"
    using E(6) [of 5] by (simp add: sf)
  have al: "isAllowed f7 11 (custodyAddress stakedCustody)"
    by (simp add: isAllowed_def E(3,4) sf staked_facts)
  obtain t F C where u: "custody_update 9 4 11 (f7, stakedCustody) = (t, F, C)"
    by (metis prod_cases3)
  note U = custody_update_E [OF u]
  have t: "t = 19" by (simp add: U(1) c7)
  have d19: "decrypt F 19 = 0"
    using U(8) by (simp add: c7 d11 d5 staked_facts)
  have k11: "decrypt F 11 = 200"
    using U(6) [of 11] by (simp add: c7 d11)
  have "step custodian (Unstake 4 6) (shortFhe, stakedCustody, stakedLedger) =
          (F, C, l2\<lparr>events := events l2 @ [Unstaked 4 19 (stakedBalances l2 4)]\<rparr>)"
    using al u t
    by (simp add: step_def unstake_def sf internal_unstake_eq core a custodian_def E(2)
          staked_facts)
  then show ?thesis
    by (simp add: core a d19 k11)
qed

section \<open>Grants on stored values\<close>

lemma internal_stake_granted:
  assumes run: "internal_stake tok s amt (f, c, l) = Inr (r, F, C, L)" and s: "s \<noteq> 0"
  shows "(stakedBalances L s \<noteq> stakedBalances l s \<longrightarrow>
            (stakedBalances L s, thisAddress L) \<in> acl F \<and> (stakedBalances L s, s) \<in> acl F) \<and>
         (totalStaked L \<noteq> totalStaked l \<longrightarrow>
            (totalStaked L, thisAddress L) \<in> acl F \<and> (totalStaked L, s) \<in> acl F) \<and>
         (\<forall>a. a \<noteq> s \<longrightarrow> stakedBalances L a = stakedBalances l a)"
proof -
  from run obtain t f2 where app: "applyIncrease s t (f2, l) = (r, F, L)"
    by (elim internal_stake_E)
  show ?thesis
  proof (cases "t = 0")
    case True
    with app show ?thesis by (simp add: applyIncrease_uninit)
  next
    case False
    note E = applyIncrease_E [OF app False]
    show ?thesis using s by (simp add: E(2) E(5))
  qed
qed

lemma internal_unstake_granted:
  assumes wb: "wellBehaved tok"
    and run: "internal_unstake tok s amt (f, c, l) = Inr (r, F, C, L)" and s: "s \<noteq> 0"
  shows "(stakedBalances L s, thisAddress L) \<in> acl F \<and> (stakedBalances L s, s) \<in> acl F \<and>
         (totalStaked L, thisAddress L) \<in> acl F \<and> (totalStaked L, s) \<in> acl F \<and>
         (\<forall>a. a \<noteq> s \<longrightarrow> stakedBalances L a = stakedBalances l a)"
proof -
  from run obtain a f7 l2 where core: "unstake_core s amt (f, l) = (a, f7, l2)"
    and tr: "confidentialTransfer tok (thisAddress l2) s a (f7, c) = Inr (r, F, C)"
    and L: "L = l2\<lparr>events := events l2 @ [Unstaked s r (stakedBalances l2 s)]\<rparr>"
    by (elim internal_unstake_E)
  note E = unstake_core_E [OF core]
  have "a \<le> count f7" by (simp add: E(1,3))
  from wellBehaved_to [OF wb this tr] have "acl f7 \<subseteq> acl F" by (simp add: extends_def)
  moreover have "(stakedBalances l2 s, thisAddress l2) \<in> acl f7"
    "(stakedBalances l2 s, s) \<in> acl f7" "(totalStaked l2, thisAddress l2) \<in> acl f7"
    "(totalStaked l2, s) \<in> acl f7"
    using s by (simp_all add: E(2) E(5))
  ultimately show ?thesis
    by (auto simp add: L E(2))
qed

text \<open>Claim C8. After a stake or unstake call that returns, a balance handle or total
  handle that the call stored anew carries a persistent grant for the ledger contract and
  one for the caller; the balances of other accounts are not touched. The caller is not
  the zero address (no transaction has it as sender), and the collaborator revokes no
  grant.\<close>

theorem stored_values_are_granted:
  assumes wb: "wellBehaved tok"
    and run: "exec tok k (f, c, l) = Inr (r, F, C, L)"
    and s: "sender_of k \<noteq> 0"
  shows "(stakedBalances L (sender_of k) \<noteq> stakedBalances l (sender_of k) \<longrightarrow>
            (stakedBalances L (sender_of k), thisAddress L) \<in> acl F \<and>
            (stakedBalances L (sender_of k), sender_of k) \<in> acl F) \<and>
         (totalStaked L \<noteq> totalStaked l \<longrightarrow>
            (totalStaked L, thisAddress L) \<in> acl F \<and> (totalStaked L, sender_of k) \<in> acl F) \<and>
         (\<forall>a. a \<noteq> sender_of k \<longrightarrow> stakedBalances L a = stakedBalances l a)"
proof (cases k)
  case (Stake s h)
  with run have "internal_stake tok s h (f, c, l) = Inr (r, F, C, L)"
    by (auto simp add: stake_def split: if_splits)
  from internal_stake_granted [OF this] s Stake show ?thesis by simp
next
  case (StakeExternal s x)
  with run obtain h f1 where "internal_stake tok s h (f1, c, l) = Inr (r, F, C, L)"
    by (auto simp add: stake_external_def split: sum.splits)
  from internal_stake_granted [OF this] s StakeExternal show ?thesis by simp
next
  case (Unstake s h)
  with run have "internal_unstake tok s h (f, c, l) = Inr (r, F, C, L)"
    by (auto simp add: unstake_def split: if_splits)
  from internal_unstake_granted [OF wb this] s Unstake show ?thesis by simp
next
  case (UnstakeExternal s x)
  with run obtain h f1 where "internal_unstake tok s h (f1, c, l) = Inr (r, F, C, L)"
    by (auto simp add: unstake_external_def split: sum.splits)
  from internal_unstake_granted [OF wb this] s UnstakeExternal show ?thesis by simp
qed

theorem stored_values_are_granted_witness:
  "wellBehaved custodian \<and> sender_of (Unstake 4 6) \<noteq> 0 \<and>
   (\<exists>r F C L. exec custodian (Unstake 4 6) (stakedFhe, stakedCustody, stakedLedger) =
        Inr (r, F, C, L) \<and>
      stakedBalances L 4 \<noteq> stakedBalances stakedLedger 4 \<and>
      (stakedBalances L 4, 9) \<in> acl F \<and> (stakedBalances L 4, 4) \<in> acl F \<and>
      totalStaked L \<noteq> totalStaked stakedLedger \<and>
      (totalStaked L, 9) \<in> acl F \<and> (totalStaked L, 4) \<in> acl F)"
proof -
  from custodian_unstake_returns [of stakedFhe 6 4 stakedLedger stakedCustody]
  obtain r F C L where
    u: "unstake custodian 4 6 (stakedFhe, stakedCustody, stakedLedger) = Inr (r, F, C, L)"
    by (auto simp add: staked_facts)
  then have run: "exec custodian (Unstake 4 6) (stakedFhe, stakedCustody, stakedLedger) =
      Inr (r, F, C, L)" by simp
  have s: "sender_of (Unstake 4 6) \<noteq> 0" by simp
  from u have iu: "internal_unstake custodian 4 6 (stakedFhe, stakedCustody, stakedLedger) =
      Inr (r, F, C, L)"
    by (simp add: unstake_def staked_facts)
  then obtain a f7 l2 where core: "unstake_core 4 6 (stakedFhe, stakedLedger) = (a, f7, l2)"
    and L: "L = l2\<lparr>events := events l2 @ [Unstaked 4 r (stakedBalances l2 4)]\<rparr>"
    by (elim internal_unstake_E)
  have new: "stakedBalances L 4 = 9" "totalStaked L = 14" "thisAddress L = 9"
    by (simp_all add: L unstake_core_E(2) [OF core] staked_facts)
  from stored_values_are_granted [OF custodian_wellBehaved run s] new
  have "(stakedBalances L 4, 9) \<in> acl F \<and> (stakedBalances L 4, 4) \<in> acl F \<and>
        (totalStaked L, 9) \<in> acl F \<and> (totalStaked L, 4) \<in> acl F"
    by (simp add: staked_facts)
  with run new custodian_wellBehaved s show ?thesis
    by (simp add: staked_facts)
qed

section \<open>No branching on plaintexts\<close>

lemma tryIncrease_ops:
  assumes "tryIncrease a b f = ((ok, u), f')"
  shows "ops f' = ops f @ [OpAdd a b, OpGe (count f + 1) a, OpSelect (count f + 2) (count f + 1) a]"
  using assms [symmetric]
  by (simp add: op_defs produce_simps)

lemma tryDecrease_ops:
  assumes "tryDecrease a b f = ((ok, u), f')"
  shows "ops f' = ops f @ [OpGe a b, OpSub a b, OpSelect (count f + 1) (count f + 2) a]"
  using assms [symmetric]
  by (simp add: op_defs produce_simps)

lemma increaseTotal_ops:
  assumes "increaseTotal amt actor (f, l) = (f', l')"
  shows "ops f' = ops f @ [OpAdd (totalStaked l) amt, OpGe (count f + 1) (totalStaked l),
                          OpSelect (count f + 2) (count f + 1) (totalStaked l)]"
  using assms [symmetric]
  by (auto simp add: increaseTotal_def allowThis_def allow_simps Let_def
        dest: tryIncrease_ops split: prod.splits)

lemma decreaseTotal_ops:
  assumes "decreaseTotal amt actor (f, l) = (f', l')"
  shows "ops f' = ops f @ [OpGe (totalStaked l) amt, OpSub (totalStaked l) amt,
                          OpSelect (count f + 1) (count f + 2) (totalStaked l)]"
  using assms [symmetric]
  by (auto simp add: decreaseTotal_def allowThis_def allow_simps Let_def
        dest: tryDecrease_ops split: prod.splits)

lemma applyIncrease_ops:
  assumes "applyIncrease s amt (f, l) = (r, F, L)" and "amt \<noteq> 0"
  shows "ops F = ops f @
           [OpAdd (stakedBalances l s) amt, OpGe (count f + 1) (stakedBalances l s),
            OpSelect (count f + 2) (count f + 1) (stakedBalances l s),
            OpAdd (totalStaked l) amt, OpGe (count f + 4) (totalStaked l),
            OpSelect (count f + 5) (count f + 4) (totalStaked l)]"
proof -
  obtain ok u f1 where t: "tryIncrease (stakedBalances l s) amt f = ((ok, u), f1)"
    by (metis surj_pair)
  define f3 where "f3 = allow u s (allowThis l u f1)"
  define l1 where "l1 = l\<lparr>stakedBalances := (stakedBalances l)(s := u)\<rparr>"
  obtain f4 l2 where i: "increaseTotal amt s (f3, l1) = (f4, l2)"
    by (metis surj_pair)
  have res: "F = f4"
    using assms t i by (auto simp add: applyIncrease_def isInitialized_def f3_def l1_def)
  have c3: "count f3 = count f + 3" and o3: "ops f3 = ops f1"
    by (simp_all add: f3_def allowThis_def allow_simps tryIncrease_E(2) [OF t])
  show ?thesis
    using increaseTotal_ops [OF i] tryIncrease_ops [OF t]
    by (simp add: res c3 o3 l1_def add.commute)
qed

lemma unstake_core_ops:
  assumes "unstake_core s amt (f, l) = (a, F, L)"
  shows "ops F = ops f @
           [OpGe (stakedBalances l s) amt, OpSub (stakedBalances l s) amt,
            OpSelect (count f + 1) (count f + 2) (stakedBalances l s),
            OpTrivial 0, OpSelect (count f + 1) amt (count f + 4),
            OpGe (totalStaked l) (count f + 5), OpSub (totalStaked l) (count f + 5),
            OpSelect (count f + 6) (count f + 7) (totalStaked l)]"
proof -
  obtain ok u f1 where t: "tryDecrease (stakedBalances l s) amt f = ((ok, u), f1)"
    by (metis surj_pair)
  note T = tryDecrease_E [OF t]
  define f2 where "f2 = snd (asEuint64 0 f1)"
  define f3 where "f3 = snd (FHE_select ok amt (count f + 4) f2)"
  define f5 where "f5 = allow u s (allowThis l u f3)"
  define l1 where "l1 = l\<lparr>stakedBalances := (stakedBalances l)(s := u)\<rparr>"
  obtain f6 l2 where d: "decreaseTotal (count f + 5) s (f5, l1) = (f6, l2)"
    by (metis surj_pair)
  have c2: "fst (asEuint64 0 f1) = count f + 4" "count f2 = count f + 4"
    by (simp_all add: f2_def asEuint64_def produce_simps T)
  have c3: "fst (FHE_select ok amt (count f + 4) f2) = count f + 5" "count f3 = count f + 5"
    by (simp_all add: f3_def FHE_select_def produce_simps c2)
  have c5: "count f5 = count f + 5"
    by (simp add: f5_def allowThis_def allow_simps c3)
  have res: "F = allowTransient (count f + 5) (methToken l2) f6"
    using assms t d c2 c3
    by (auto simp add: unstake_core_def isInitialized_def Let_def f2_def f3_def f5_def l1_def
          split: prod.splits)
  have o5: "ops f5 = ops f1 @ [OpTrivial 0, OpSelect ok amt (count f + 4)]"
    by (simp add: f5_def allowThis_def allow_simps f3_def f2_def FHE_select_def asEuint64_def
          produce_simps)
  show ?thesis
    using decreaseTotal_ops [OF d] tryDecrease_ops [OF t]
    by (simp add: res allow_simps c5 o5 l1_def T(1) add.commute)
qed

lemma applyIncrease_shape:
  assumes "sameShape f g"
  shows "sameStep (applyIncrease s amt (f, l)) (applyIncrease s amt (g, l))"
proof (cases "amt = 0")
  case True
  with assms show ?thesis by (simp add: applyIncrease_uninit sameStep_def)
next
  case False
  obtain r F L where a: "applyIncrease s amt (f, l) = (r, F, L)" by (metis prod_cases3)
  obtain r' G L' where b: "applyIncrease s amt (g, l) = (r', G, L')" by (metis prod_cases3)
  note A = applyIncrease_E [OF a False] applyIncrease_ops [OF a False]
  note B = applyIncrease_E [OF b False] applyIncrease_ops [OF b False]
  from assms show ?thesis
    by (simp add: a b sameStep_def sameShape_def A(1-5,9) B(1-5,9))
qed

lemma unstake_core_shape:
  assumes "sameShape f g"
  shows "sameStep (unstake_core s amt (f, l)) (unstake_core s amt (g, l))"
proof -
  obtain r F L where a: "unstake_core s amt (f, l) = (r, F, L)" by (metis prod_cases3)
  obtain r' G L' where b: "unstake_core s amt (g, l) = (r', G, L')" by (metis prod_cases3)
  note A = unstake_core_E [OF a] unstake_core_ops [OF a]
  note B = unstake_core_E [OF b] unstake_core_ops [OF b]
  from assms show ?thesis
    by (simp add: a b sameStep_def sameShape_def A(1-5,10) B(1-5,10))
qed

lemma sameShape_allowTransient:
  "sameShape f g \<Longrightarrow> sameShape (allowTransient h a f) (allowTransient h a g)"
  by (simp add: sameShape_def allow_simps)

lemma sameReply_cases:
  assumes "sameReply x y"
  obtains (err) e where "x = Inl e" "y = Inl e"
  | (ok) h f g c where "x = Inr (h, f, c)" "y = Inr (h, g, c)" "sameShape f g"
proof (cases x)
  case (Inl e)
  with assms have "y = Inl e" by (cases y) (simp_all add: sameReply_def)
  with Inl show ?thesis by (rule err)
next
  case (Inr v)
  obtain h f c where v: "v = (h, f, c)" by (cases v)
  from assms Inr v obtain w where y: "y = Inr w" by (cases y) (simp_all add: sameReply_def)
  obtain h' g c' where w: "w = (h', g, c')" by (cases w)
  from assms Inr v y w have "h' = h" "c' = c" "sameShape f g"
    by (simp_all add: sameReply_def)
  with Inr v y w show ?thesis by (intro ok [of h f c g]) simp_all
qed

lemma internal_stake_shape:
  assumes bl: "blind tok" and sh: "sameShape f g"
  shows "sameOutcome (internal_stake tok s amt (f, c, l)) (internal_stake tok s amt (g, c, l))"
proof -
  let ?f1 = "if isInitialized amt then allowTransient amt (methToken l) f else f"
  let ?g1 = "if isInitialized amt then allowTransient amt (methToken l) g else g"
  have "sameShape ?f1 ?g1" using sh by (simp add: sameShape_allowTransient)
  with bl have "sameReply
      (confidentialTransferFrom tok (thisAddress l) s (thisAddress l) amt (?f1, c))
      (confidentialTransferFrom tok (thisAddress l) s (thisAddress l) amt (?g1, c))"
    unfolding blind_def by blast
  then show ?thesis
  proof (cases rule: sameReply_cases)
    case (err e)
    then show ?thesis by (simp add: internal_stake_def sameOutcome_def)
  next
    case (ok t f2 g2 C)
    obtain r F L where a: "applyIncrease s t (f2, l) = (r, F, L)" by (metis prod_cases3)
    obtain r' G L' where b: "applyIncrease s t (g2, l) = (r', G, L')" by (metis prod_cases3)
    from applyIncrease_shape [OF ok(3), of s t l] a b
    have "r' = r" "L' = L" "sameShape F G" by (simp_all add: sameStep_def)
    with ok(1,2) a b show ?thesis
      by (simp add: internal_stake_def sameOutcome_def)
  qed
qed

lemma internal_unstake_shape:
  assumes bl: "blind tok" and sh: "sameShape f g"
  shows "sameOutcome (internal_unstake tok s amt (f, c, l)) (internal_unstake tok s amt (g, c, l))"
proof -
  obtain a F L where x: "unstake_core s amt (f, l) = (a, F, L)" by (metis prod_cases3)
  obtain a' G L' where y: "unstake_core s amt (g, l) = (a', G, L')" by (metis prod_cases3)
  from unstake_core_shape [OF sh, of s amt l] x y
  have eq: "a' = a" "L' = L" and sh7: "sameShape F G"
    by (simp_all add: sameStep_def)
  from bl sh7 have "sameReply (confidentialTransfer tok (thisAddress L) s a (F, c))
      (confidentialTransfer tok (thisAddress L) s a (G, c))"
    unfolding blind_def by blast
  then show ?thesis
  proof (cases rule: sameReply_cases)
    case (err e)
    then show ?thesis by (simp add: internal_unstake_eq x y eq sameOutcome_def)
  next
    case (ok t f2 g2 C)
    then show ?thesis by (simp add: internal_unstake_eq x y eq sameOutcome_def)
  qed
qed

lemma fromExternal_shape:
  assumes "sameShape f g"
  shows "fromExternal (ExternalInput v p) f = Inl e \<Longrightarrow> fromExternal (ExternalInput v' p) g = Inl e"
    and "fromExternal (ExternalInput v p) f = Inr (h, f1) \<Longrightarrow>
         \<exists>g1. fromExternal (ExternalInput v' p) g = Inr (h, g1) \<and> sameShape f1 g1"
  using assms
  by (auto simp add: fromExternal_def produce_def sameShape_def split: if_splits)

lemma stake_external_shape:
  assumes bl: "blind tok" and sh: "sameShape f g"
  shows "sameOutcome (stake_external tok s (ExternalInput v p) (f, c, l))
                     (stake_external tok s (ExternalInput v' p) (g, c, l))"
proof (cases "fromExternal (ExternalInput v p) f")
  case (Inl e)
  from fromExternal_shape(1) [OF sh Inl, of v'] Inl show ?thesis
    by (simp add: stake_external_def sameOutcome_def)
next
  case (Inr x)
  then obtain a f1 where x: "fromExternal (ExternalInput v p) f = Inr (a, f1)"
    by (cases x) auto
  from fromExternal_shape(2) [OF sh x, of v'] obtain g1 where
    y: "fromExternal (ExternalInput v' p) g = Inr (a, g1)" and s1: "sameShape f1 g1"
    by blast
  from internal_stake_shape [OF bl s1, of s a c l] show ?thesis
    by (simp add: stake_external_def x y)
qed

lemma unstake_external_shape:
  assumes bl: "blind tok" and sh: "sameShape f g"
  shows "sameOutcome (unstake_external tok s (ExternalInput v p) (f, c, l))
                     (unstake_external tok s (ExternalInput v' p) (g, c, l))"
proof (cases "fromExternal (ExternalInput v p) f")
  case (Inl e)
  from fromExternal_shape(1) [OF sh Inl, of v'] Inl show ?thesis
    by (simp add: unstake_external_def sameOutcome_def)
next
  case (Inr x)
  then obtain a f1 where x: "fromExternal (ExternalInput v p) f = Inr (a, f1)"
    by (cases x) auto
  from fromExternal_shape(2) [OF sh x, of v'] obtain g1 where
    y: "fromExternal (ExternalInput v' p) g = Inr (a, g1)" and s1: "sameShape f1 g1"
    by blast
  from internal_unstake_shape [OF bl s1, of s a c l] show ?thesis
    by (simp add: unstake_external_def x y)
qed

lemma obliging_blind: "blind obliging"
  by (simp add: blind_def obliging_def sameReply_def)

text \<open>Claim C5. Run the safe-increase path, the safe-decrease path, or a whole stake or
  unstake on two stores of the same shape, that is, differing only in plaintexts and
  hence in whether the arithmetic-safety predicate holds. The two runs return the same
  handle, perform the same sequence of homomorphic operations on the same operands, make
  the same grants, write the same ledger and events, and revert or return alike. The
  collaborator is assumed to be blind to plaintexts as well.\<close>

theorem no_branch_on_plaintext:
  assumes bl: "blind tok" and sh: "sameShape f g"
  shows "sameStep (applyIncrease s amt (f, l)) (applyIncrease s amt (g, l)) \<and>
         sameStep (unstake_core s amt (f, l)) (unstake_core s amt (g, l)) \<and>
         sameOutcome (internal_stake tok s amt (f, c, l)) (internal_stake tok s amt (g, c, l)) \<and>
         sameOutcome (internal_unstake tok s amt (f, c, l))
                     (internal_unstake tok s amt (g, c, l)) \<and>
         sameOutcome (stake_external tok s (ExternalInput v p) (f, c, l))
                     (stake_external tok s (ExternalInput v' p) (g, c, l)) \<and>
         sameOutcome (unstake_external tok s (ExternalInput v p) (f, c, l))
                     (unstake_external tok s (ExternalInput v' p) (g, c, l))"
  by (intro conjI applyIncrease_shape [OF sh] unstake_core_shape [OF sh]
        internal_stake_shape [OF bl sh] internal_unstake_shape [OF bl sh]
        stake_external_shape [OF bl sh] unstake_external_shape [OF bl sh])

theorem no_branch_on_plaintext_witness:
  "blind obliging \<and> sameShape stakedFhe shortFhe \<and>
   decrypt stakedFhe (stakedBalances stakedLedger 4) < decrypt stakedFhe 6 \<and>
   decrypt shortFhe 6 \<le> decrypt shortFhe (stakedBalances stakedLedger 4) \<and>
   sameStep (applyIncrease 4 6 (stakedFhe, stakedLedger)) (applyIncrease 4 6 (shortFhe, stakedLedger)) \<and>
   sameStep (unstake_core 4 6 (stakedFhe, stakedLedger)) (unstake_core 4 6 (shortFhe, stakedLedger)) \<and>
   sameOutcome (internal_stake obliging 4 6 (stakedFhe, (), stakedLedger))
               (internal_stake obliging 4 6 (shortFhe, (), stakedLedger)) \<and>
   sameOutcome (internal_unstake obliging 4 6 (stakedFhe, (), stakedLedger))
               (internal_unstake obliging 4 6 (shortFhe, (), stakedLedger)) \<and>
   sameOutcome (stake_external obliging 4 (ExternalInput 600 True) (stakedFhe, (), stakedLedger))
               (stake_external obliging 4 (ExternalInput 200 True) (shortFhe, (), stakedLedger)) \<and>
   sameOutcome (unstake_external obliging 4 (ExternalInput 600 True) (stakedFhe, (), stakedLedger))
               (unstake_external obliging 4 (ExternalInput 200 True) (shortFhe, (), stakedLedger))"
proof -
  have sh: "sameShape stakedFhe shortFhe"
    by (simp add: sameShape_def stakedFhe_def shortFhe_def)
  have "decrypt shortFhe 6 = 200" "decrypt shortFhe 2 = 300"
    by (simp_all add: shortFhe_def decrypt_def)
  then have d: "decrypt stakedFhe (stakedBalances stakedLedger 4) < decrypt stakedFhe 6"
    "decrypt shortFhe 6 \<le> decrypt shortFhe (stakedBalances stakedLedger 4)"
    by (simp_all add: staked_facts)
  note T = no_branch_on_plaintext [OF obliging_blind sh, of 4 6 stakedLedger "()" 600 True 200]
  show ?thesis
    by (intro conjI obliging_blind sh d T [THEN conjunct1]
          T [THEN conjunct2, THEN conjunct1]
          T [THEN conjunct2, THEN conjunct2, THEN conjunct1]
          T [THEN conjunct2, THEN conjunct2, THEN conjunct2, THEN conjunct1]
          T [THEN conjunct2, THEN conjunct2, THEN conjunct2, THEN conjunct2, THEN conjunct1]
          T [THEN conjunct2, THEN conjunct2, THEN conjunct2, THEN conjunct2, THEN conjunct2])
qed

end
